theory Spec2Isabelle
  imports Complex_Main
begin

section \<open>Vectors, errors and the numeric library\<close>

text \<open>
  The optimizers of \<^verbatim>\<open>topics/optimizers.ipynb\<close> work on NumPy arrays of floats. A row is a
  list of reals, a two-dimensional array a list of rows. The reals stand for the finite
  floats: rounding and overflow of the arithmetic, and an objective that returns NaN, are
  outside the model.
\<close>

type_synonym vec = "real list"

datatype error = ValueError | IndexError | TypeError | OverflowError

text \<open>
  The bounds are what the caller passes, so their entries may be any float: a number, an
  infinity or NaN. \<^verbatim>\<open>lower, upper = bounds\<close> gives two sequences, each a Python list (the
  docstring's \<^verbatim>\<open>[[lower bounds], [upper bounds]]\<close>) or a NumPy array (a row of the
  notebook's \<^verbatim>\<open>np.array\<close>); the difference shows where the code subtracts them.
\<close>

datatype fl = is_Num: Num (num: real) | PosInf | NegInf | NaN

datatype pyseq = is_PyList: PyList (items: "fl list") | NdArray (items: "fl list")

definition reals :: "pyseq \<Rightarrow> vec" where
  "reals s = map num (items s)"

definition finite_seq :: "pyseq \<Rightarrow> bool" where
  "finite_seq s = list_all is_Num (items s)"

text \<open>
  The random generator is the library's. Its three sampling calls are parameters of the
  model: each takes the generator state and returns the sample with the next state.
  \<^item> \<open>np_uniform lo hi\<close>: one sample of \<^verbatim>\<open>np.random.uniform(lo, hi)\<close>;
  \<^item> \<open>np_rand\<close>: one sample of \<^verbatim>\<open>np.random.rand()\<close>;
  \<^item> \<open>np_choice a k replace p\<close>: \<^verbatim>\<open>np.random.choice(a, size=k, replace=replace, p=p)\<close>,
    once the library has accepted its arguments; \<open>p\<close> is the list of weights of the
    candidates, \<open>None\<close> for the library's default, the uniform distribution over them.
\<close>

record 'g sampler =
  np_uniform :: "real \<Rightarrow> real \<Rightarrow> 'g \<Rightarrow> real \<times> 'g"
  np_rand :: "'g \<Rightarrow> real \<times> 'g"
  np_choice :: "nat list \<Rightarrow> nat \<Rightarrow> bool \<Rightarrow> real list option \<Rightarrow> 'g \<Rightarrow> nat list \<times> 'g"

text \<open>
  The state outside the arrays: the generator, and the number of calls of the objective
  function made so far.
\<close>

record 'g world =
  gen :: 'g
  evals :: nat

definition draw_uniform :: "'g sampler \<Rightarrow> real \<Rightarrow> real \<Rightarrow> 'g world \<Rightarrow> real \<times> 'g world" where
  "draw_uniform R lo hi w = (case np_uniform R lo hi (gen w) of (x, g) \<Rightarrow> (x, w\<lparr>gen := g\<rparr>))"

definition draw_rand :: "'g sampler \<Rightarrow> 'g world \<Rightarrow> real \<times> 'g world" where
  "draw_rand R w = (case np_rand R (gen w) of (x, g) \<Rightarrow> (x, w\<lparr>gen := g\<rparr>))"

definition draw_choice ::
  "'g sampler \<Rightarrow> nat list \<Rightarrow> nat \<Rightarrow> bool \<Rightarrow> real list option \<Rightarrow> 'g world
     \<Rightarrow> nat list \<times> 'g world" where
  "draw_choice R a k replace p w =
     (case np_choice R a k replace p (gen w) of (idx, g) \<Rightarrow> (idx, w\<lparr>gen := g\<rparr>))"

text \<open>One row of uniform samples, one per pair of bounds, drawn left to right.\<close>

fun uniform_row :: "'g sampler \<Rightarrow> (real \<times> real) list \<Rightarrow> 'g world \<Rightarrow> vec \<times> 'g world" where
  "uniform_row R [] w = ([], w)"
| "uniform_row R ((lo, hi) # bs) w =
     (case draw_uniform R lo hi w of (x, w1) \<Rightarrow>
        (case uniform_row R bs w1 of (xs, w2) \<Rightarrow> (x # xs, w2)))"

fun uniform_rows :: "'g sampler \<Rightarrow> (real \<times> real) list \<Rightarrow> nat \<Rightarrow> 'g world \<Rightarrow> vec list \<times> 'g world" where
  "uniform_rows R bs 0 w = ([], w)"
| "uniform_rows R bs (Suc k) w =
     (case uniform_row R bs w of (r, w1) \<Rightarrow>
        (case uniform_rows R bs k w1 of (rs, w2) \<Rightarrow> (r # rs, w2)))"

text \<open>\<^verbatim>\<open>np.random.rand(d)\<close>: \<open>d\<close> samples.\<close>

fun rand_vec :: "'g sampler \<Rightarrow> nat \<Rightarrow> 'g world \<Rightarrow> vec \<times> 'g world" where
  "rand_vec R 0 w = ([], w)"
| "rand_vec R (Suc k) w =
     (case draw_rand R w of (u, w1) \<Rightarrow>
        (case rand_vec R k w1 of (us, w2) \<Rightarrow> (u # us, w2)))"

text \<open>
  Broadcasting a one-dimensional array against rows of length \<open>d\<close>: an array of that length
  is taken as it is, an array of length one is repeated, any other length is the library's
  ValueError.
\<close>

definition np_broadcast :: "nat \<Rightarrow> vec \<Rightarrow> error + vec" where
  "np_broadcast d v =
     (if length v = d then Inr v
      else if length v = 1 then Inr (replicate d (hd v))
      else Inl ValueError)"

text \<open>
  Broadcasting two one-dimensional arrays against each other, as \<^verbatim>\<open>high - low\<close> does:
  equal lengths pair up, an array of length one is repeated along the other, anything
  else is the library's ValueError.
\<close>

definition np_broadcast2 :: "'a list \<Rightarrow> 'a list \<Rightarrow> error + 'a list \<times> 'a list" where
  "np_broadcast2 a b =
     (if length a = length b then Inr (a, b)
      else if length a = 1 then Inr (replicate (length b) (hd a), b)
      else if length b = 1 then Inr (a, replicate (length a) (hd b))
      else Inl ValueError)"

text \<open>
  \<^verbatim>\<open>np.random.uniform(low, high, size=(n, d))\<close> with array bounds. The library first forms
  \<^verbatim>\<open>high - low\<close>, which fails when the two do not broadcast against each other; it raises
  OverflowError (\<^verbatim>\<open>Range exceeds valid bounds\<close>) unless every difference is finite, which
  for floats within range means every bound that takes part is a number; it then refuses
  a negative dimension and bounds that do not broadcast to the shape. All this happens
  before anything is drawn.
\<close>

definition np_random_uniform ::
  "'g sampler \<Rightarrow> fl list \<Rightarrow> fl list \<Rightarrow> int \<Rightarrow> nat \<Rightarrow> 'g world \<Rightarrow> (error + vec list) \<times> 'g world" where
  "np_random_uniform R low high n d w =
     (case np_broadcast2 low high of
        Inl e \<Rightarrow> (Inl e, w)
      | Inr (lo, hi) \<Rightarrow>
          if \<not> (list_all is_Num lo \<and> list_all is_Num hi) then (Inl OverflowError, w)
          else if n < 0 then (Inl ValueError, w)
          else (case np_broadcast d (map num lo) of
                  Inl e \<Rightarrow> (Inl e, w)
                | Inr l \<Rightarrow>
                    (case np_broadcast d (map num hi) of
                       Inl e \<Rightarrow> (Inl e, w)
                     | Inr h \<Rightarrow>
                         (case uniform_rows R (zip l h) (nat n) w of
                            (rows, w1) \<Rightarrow> (Inr rows, w1)))))"

definition vadd :: "vec \<Rightarrow> vec \<Rightarrow> vec" where
  "vadd x y = map2 (+) x y"

definition vsub :: "vec \<Rightarrow> vec \<Rightarrow> vec" where
  "vsub x y = map2 (-) x y"

definition vmul :: "vec \<Rightarrow> vec \<Rightarrow> vec" where
  "vmul x y = map2 (*) x y"

definition vscale :: "vec \<Rightarrow> real \<Rightarrow> vec" where
  "vscale x c = map (\<lambda>a. a * c) x"

text \<open>\<^verbatim>\<open>np.clip(x, lo, hi)\<close> is \<^verbatim>\<open>np.minimum(hi, np.maximum(x, lo))\<close>.\<close>

definition np_clip :: "vec \<Rightarrow> vec \<Rightarrow> vec \<Rightarrow> vec" where
  "np_clip x lo hi = map2 min (map2 max x lo) hi"

definition np_where :: "bool list \<Rightarrow> vec \<Rightarrow> vec \<Rightarrow> vec" where
  "np_where c x y = map (\<lambda>(p, a, b). if p then a else b) (zip c (zip x y))"

text \<open>
  \<^verbatim>\<open>np.argmin\<close>: the index of the first occurrence of the minimum; an empty array is a
  ValueError.
\<close>

definition np_argmin :: "real list \<Rightarrow> error + nat" where
  "np_argmin vals =
     (if vals = [] then Inl ValueError
      else Inr (length (takeWhile (\<lambda>v. v \<noteq> Min (set vals)) vals)))"

text \<open>
  The objective is one Python callable that the code applies to arrays of two shapes: to
  one point (a one-dimensional array) inside the loops, where the result is compared as
  a number, and once to a whole two-dimensional array, \<^verbatim>\<open>function(population)\<close> and
  \<^verbatim>\<open>function(X)\<close>, where the result is handed to \<^verbatim>\<open>np.argmin\<close>. The model takes the two
  behaviours as two parameters: \<open>f\<close> on a point, \<open>F\<close> on an array of rows, the latter
  returning the entries of the result in the flattened order \<^verbatim>\<open>np.argmin\<close> reads. Each call
  counts once.
\<close>

definition call :: "(vec \<Rightarrow> real) \<Rightarrow> vec \<Rightarrow> 'g world \<Rightarrow> real \<times> 'g world" where
  "call f x w = (f x, w\<lparr>evals := evals w + 1\<rparr>)"

definition call_rows ::
  "(vec list \<Rightarrow> real list) \<Rightarrow> vec list \<Rightarrow> 'g world \<Rightarrow> real list \<times> 'g world" where
  "call_rows F rows w = (F rows, w\<lparr>evals := evals w + 1\<rparr>)"

section \<open>Differential evolution\<close>

text \<open>
  The trial vector for target \<open>j\<close>: mutation from three sampled rows, clipping, crossover
  with the target. \<^verbatim>\<open>np.random.choice\<close> refuses a sample larger than the list of
  candidates; unpacking anything but three rows and indexing outside the population are
  errors of Python and NumPy.
\<close>

definition de_trial ::
  "'g sampler \<Rightarrow> vec \<Rightarrow> vec \<Rightarrow> nat \<Rightarrow> real \<Rightarrow> real \<Rightarrow> nat \<Rightarrow> vec list \<Rightarrow> 'g world
     \<Rightarrow> (error + vec) \<times> 'g world" where
  "de_trial R lower upper n mutation crossover j population w =
     (let candidates = remove1 j [0..<n] in
      if length candidates < 3 then (Inl ValueError, w)
      else case draw_choice R candidates 3 False None w of (idx, w1) \<Rightarrow>
        (case idx of
           [a, b, c] \<Rightarrow>
             if a < length population \<and> b < length population \<and> c < length population then
               (let x1 = population ! a; x2 = population ! b; x3 = population ! c;
                    x_new = vadd x1 (vscale (vsub x2 x3) mutation);
                    x_clipped = np_clip x_new lower upper
                in case rand_vec R (length lower) w1 of (us, w2) \<Rightarrow>
                     (Inr (np_where (map (\<lambda>u. u < crossover) us) x_clipped (population ! j)), w2))
             else (Inl IndexError, w1)
         | _ \<Rightarrow> (Inl ValueError, w1)))"

text \<open>Selection for target \<open>j\<close>: the row is overwritten when the trial is strictly better.\<close>

definition de_update ::
  "'g sampler \<Rightarrow> (vec \<Rightarrow> real) \<Rightarrow> vec \<Rightarrow> vec \<Rightarrow> nat \<Rightarrow> real \<Rightarrow> real \<Rightarrow> nat \<Rightarrow> vec list \<Rightarrow> 'g world
     \<Rightarrow> (error + vec list) \<times> 'g world" where
  "de_update R f lower upper n mutation crossover j population w =
     (case de_trial R lower upper n mutation crossover j population w of
        (Inl e, w1) \<Rightarrow> (Inl e, w1)
      | (Inr x_new, w1) \<Rightarrow>
          (case call f x_new w1 of (f_new, w2) \<Rightarrow>
             (case call f (population ! j) w2 of (f_target, w3) \<Rightarrow>
                (Inr (if f_new < f_target then population[j := x_new] else population), w3))))"

text \<open>The inner loop over the targets, each reading the population the earlier ones left.\<close>

fun de_pass ::
  "'g sampler \<Rightarrow> (vec \<Rightarrow> real) \<Rightarrow> vec \<Rightarrow> vec \<Rightarrow> nat \<Rightarrow> real \<Rightarrow> real \<Rightarrow> nat list \<Rightarrow> vec list \<Rightarrow> 'g world
     \<Rightarrow> (error + vec list) \<times> 'g world" where
  "de_pass R f lower upper n mutation crossover [] population w = (Inr population, w)"
| "de_pass R f lower upper n mutation crossover (j # js) population w =
     (case de_update R f lower upper n mutation crossover j population w of
        (Inl e, w1) \<Rightarrow> (Inl e, w1)
      | (Inr population', w1) \<Rightarrow> de_pass R f lower upper n mutation crossover js population' w1)"

text \<open>The outer loop: \<open>k\<close> passes over \<^verbatim>\<open>enumerate(population)\<close>.\<close>

fun de_steps ::
  "'g sampler \<Rightarrow> (vec \<Rightarrow> real) \<Rightarrow> vec \<Rightarrow> vec \<Rightarrow> nat \<Rightarrow> real \<Rightarrow> real \<Rightarrow> nat \<Rightarrow> vec list \<Rightarrow> 'g world
     \<Rightarrow> (error + vec list) \<times> 'g world" where
  "de_steps R f lower upper n mutation crossover 0 population w = (Inr population, w)"
| "de_steps R f lower upper n mutation crossover (Suc k) population w =
     (case de_pass R f lower upper n mutation crossover [0..<length population] population w of
        (Inl e, w1) \<Rightarrow> (Inl e, w1)
      | (Inr population', w1) \<Rightarrow> de_steps R f lower upper n mutation crossover k population' w1)"

text \<open>
  \<^verbatim>\<open>best = np.argmin(function(population)); return population[best]\<close>: one call of the
  objective on the whole array; an index past the last row is NumPy's IndexError.
\<close>

definition de_best ::
  "(vec list \<Rightarrow> real list) \<Rightarrow> vec list \<Rightarrow> 'g world \<Rightarrow> (error + vec) \<times> 'g world" where
  "de_best F population w =
     (case call_rows F population w of (vals, w1) \<Rightarrow>
        (case np_argmin vals of
           Inl e \<Rightarrow> (Inl e, w1)
         | Inr best \<Rightarrow>
             if best < length population then (Inr (population ! best), w1)
             else (Inl IndexError, w1)))"

text \<open>
  \<^verbatim>\<open>minimize_de(function, bounds, steps, n, mutation, crossover)\<close>. \<^verbatim>\<open>range(steps)\<close> is
  empty for a negative \<open>steps\<close>. NumPy broadcasts \<^verbatim>\<open>upper\<close> against a row at each use;
  the model does it once, after the initial sampling has accepted the bounds.
\<close>

definition minimize_de ::
  "'g sampler \<Rightarrow> (vec \<Rightarrow> real) \<Rightarrow> (vec list \<Rightarrow> real list) \<Rightarrow> pyseq \<times> pyseq \<Rightarrow> int \<Rightarrow> int
     \<Rightarrow> real \<Rightarrow> real \<Rightarrow> 'g world \<Rightarrow> (error + vec) \<times> 'g world" where
  "minimize_de R f F bounds steps n mutation crossover w =
     (case bounds of (lower, upper) \<Rightarrow>
        (let d = length (items lower) in
         case np_random_uniform R (items lower) (items upper) n d w of
           (Inl e, w1) \<Rightarrow> (Inl e, w1)
         | (Inr population, w1) \<Rightarrow>
             (case np_broadcast d (reals upper) of
                Inl e \<Rightarrow> (Inl e, w1)
              | Inr ub \<Rightarrow>
                  (case de_steps R f (reals lower) ub (nat n) mutation crossover (nat steps)
                          population w1 of
                     (Inl e, w2) \<Rightarrow> (Inl e, w2)
                   | (Inr population', w2) \<Rightarrow> de_best F population' w2))))"

section \<open>Particle swarm optimization\<close>

text \<open>
  \<^verbatim>\<open>x_swarm = X[np.argmin(function(X))]\<close> and \<^verbatim>\<open>x_swarm = X_best[i]\<close> index an array
  with one integer, which gives a view of the row and no copy: \<^verbatim>\<open>x_swarm\<close> names a row
  of \<^verbatim>\<open>X\<close> or of \<^verbatim>\<open>X_best\<close>, and a later write to that row changes what it reads. The
  model keeps the reference.
\<close>

datatype row_ref = In_X nat | In_X_best nat

record swarm =
  X :: "vec list"
  V :: "vec list"
  X_best :: "vec list"
  x_swarm :: row_ref

definition swarm_best :: "swarm \<Rightarrow> vec" where
  "swarm_best s = (case x_swarm s of In_X k \<Rightarrow> X s ! k | In_X_best k \<Rightarrow> X_best s ! k)"

text \<open>The body of the loop over the particles, for particle \<open>i\<close>.\<close>

definition pso_update ::
  "'g sampler \<Rightarrow> (vec \<Rightarrow> real) \<Rightarrow> vec \<Rightarrow> vec \<Rightarrow> real \<Rightarrow> real \<Rightarrow> real \<Rightarrow> nat \<Rightarrow> swarm \<Rightarrow> 'g world
     \<Rightarrow> swarm \<times> 'g world" where
  "pso_update R f lower upper \<omega> \<phi>1 \<phi>2 i s w =
     (let d = length lower in
      case uniform_row R (replicate d (0, \<phi>1)) w of (r1, w1) \<Rightarrow>
      case uniform_row R (replicate d (0, \<phi>2)) w1 of (r2, w2) \<Rightarrow>
        (let v = vadd (vadd (vscale (V s ! i) \<omega>) (vmul r1 (vsub (X_best s ! i) (X s ! i))))
                      (vmul r2 (vsub (swarm_best s) (X s ! i)));
             s1 = s\<lparr>V := (V s)[i := v]\<rparr>;
             s2 = s1\<lparr>X := (X s1)[i := np_clip (vadd (X s1 ! i) (V s1 ! i)) lower upper]\<rparr>
         in case call f (X s2 ! i) w2 of (f_x, w3) \<Rightarrow>
            case call f (X_best s2 ! i) w3 of (f_best, w4) \<Rightarrow>
              (let s3 = (if f_x < f_best then s2\<lparr>X_best := (X_best s2)[i := X s2 ! i]\<rparr> else s2)
               in case call f (X_best s3 ! i) w4 of (f_best', w5) \<Rightarrow>
                  case call f (swarm_best s3) w5 of (f_swarm, w6) \<Rightarrow>
                    (if f_best' < f_swarm then s3\<lparr>x_swarm := In_X_best i\<rparr> else s3, w6))))"

fun pso_pass ::
  "'g sampler \<Rightarrow> (vec \<Rightarrow> real) \<Rightarrow> vec \<Rightarrow> vec \<Rightarrow> real \<Rightarrow> real \<Rightarrow> real \<Rightarrow> nat list \<Rightarrow> swarm \<Rightarrow> 'g world
     \<Rightarrow> swarm \<times> 'g world" where
  "pso_pass R f lower upper \<omega> \<phi>1 \<phi>2 [] s w = (s, w)"
| "pso_pass R f lower upper \<omega> \<phi>1 \<phi>2 (i # is) s w =
     (case pso_update R f lower upper \<omega> \<phi>1 \<phi>2 i s w of (s1, w1) \<Rightarrow>
        pso_pass R f lower upper \<omega> \<phi>1 \<phi>2 is s1 w1)"

fun pso_steps ::
  "'g sampler \<Rightarrow> (vec \<Rightarrow> real) \<Rightarrow> vec \<Rightarrow> vec \<Rightarrow> nat \<Rightarrow> real \<Rightarrow> real \<Rightarrow> real \<Rightarrow> nat \<Rightarrow> swarm \<Rightarrow> 'g world
     \<Rightarrow> swarm \<times> 'g world" where
  "pso_steps R f lower upper n \<omega> \<phi>1 \<phi>2 0 s w = (s, w)"
| "pso_steps R f lower upper n \<omega> \<phi>1 \<phi>2 (Suc k) s w =
     (case pso_pass R f lower upper \<omega> \<phi>1 \<phi>2 [0..<n] s w of (s1, w1) \<Rightarrow>
        pso_steps R f lower upper n \<omega> \<phi>1 \<phi>2 k s1 w1)"

text \<open>
  The initial swarm: positions, velocities scaled by \<^verbatim>\<open>upper - lower\<close>, a copy of the
  positions as personal bests, and the view of the best initial row. The velocities'
  samples are drawn before \<^verbatim>\<open>upper - lower\<close> is formed, and that subtraction is Python's
  TypeError when both bounds are Python lists; with a NumPy array on either side it is
  NumPy's. The result carries the upper bounds broadcast to the dimension.
\<close>

definition pso_init ::
  "'g sampler \<Rightarrow> (vec list \<Rightarrow> real list) \<Rightarrow> pyseq \<Rightarrow> pyseq \<Rightarrow> int \<Rightarrow> 'g world
     \<Rightarrow> (error + swarm \<times> vec) \<times> 'g world" where
  "pso_init R F lower upper n w =
     (let d = length (items lower) in
      case np_random_uniform R (items lower) (items upper) n d w of
        (Inl e, w1) \<Rightarrow> (Inl e, w1)
      | (Inr X0, w1) \<Rightarrow>
          (case uniform_rows R (replicate d (- 1, 1)) (nat n) w1 of (U, w2) \<Rightarrow>
             if is_PyList lower \<and> is_PyList upper then (Inl TypeError, w2)
             else
               (case np_broadcast d (reals upper) of
                  Inl e \<Rightarrow> (Inl e, w2)
                | Inr ub \<Rightarrow>
                    (let V0 = map (\<lambda>u. vmul u (vsub ub (reals lower))) U in
                     case call_rows F X0 w2 of (vals, w3) \<Rightarrow>
                       (case np_argmin vals of
                          Inl e \<Rightarrow> (Inl e, w3)
                        | Inr k \<Rightarrow>
                            if k < length X0
                            then (Inr (\<lparr>X = X0, V = V0, X_best = X0, x_swarm = In_X k\<rparr>, ub), w3)
                            else (Inl IndexError, w3))))))"

text \<open>\<^verbatim>\<open>minimize_pso(function, bounds, steps, n, \<omega>, \<phi>1, \<phi>2)\<close>\<close>

definition minimize_pso ::
  "'g sampler \<Rightarrow> (vec \<Rightarrow> real) \<Rightarrow> (vec list \<Rightarrow> real list) \<Rightarrow> pyseq \<times> pyseq \<Rightarrow> int \<Rightarrow> int
     \<Rightarrow> real \<Rightarrow> real \<Rightarrow> real \<Rightarrow> 'g world \<Rightarrow> (error + vec) \<times> 'g world" where
  "minimize_pso R f F bounds steps n \<omega> \<phi>1 \<phi>2 w =
     (case bounds of (lower, upper) \<Rightarrow>
        (case pso_init R F lower upper n w of
           (Inl e, w1) \<Rightarrow> (Inl e, w1)
         | (Inr (s0, ub), w1) \<Rightarrow>
             (case pso_steps R f (reals lower) ub (nat n) \<omega> \<phi>1 \<phi>2 (nat steps) s0 w1 of
                (s, w2) \<Rightarrow> (Inr (swarm_best s), w2))))"

section \<open>A deterministic sampler\<close>

text \<open>
  A generator whose state is a counter, used to run the optimizers on concrete inputs: the
  uniform sample moves through the quarters of the interval, the choice takes the first
  \<open>k\<close> candidates, read forwards or backwards in turn.
\<close>

definition counter_sampler :: "nat sampler" where
  "counter_sampler =
     \<lparr>np_uniform = (\<lambda>lo hi g. (lo + (hi - lo) * (real (g mod 4) / 4), g + 1)),
      np_rand = (\<lambda>g. (real (g mod 4) / 4, g + 1)),
      np_choice = (\<lambda>a k replace p g. (take k (if even g then a else rev a), g + 1))\<rparr>"

definition world0 :: "nat world" where
  "world0 = \<lparr>gen = 0, evals = 0\<rparr>"

text \<open>
  An objective in the style of the notebook's: the squared distance to the point with
  every coordinate \<open>1\<close>, summed over the last axis, so that on a two-dimensional array it
  returns the value of each row.
\<close>

definition some_function :: "vec \<Rightarrow> real" where
  "some_function x = sum_list (map (\<lambda>a. (a - 1) ^ 2) x)"

definition some_function_rows :: "vec list \<Rightarrow> real list" where
  "some_function_rows P = map some_function P"

text \<open>
  The objective \<^verbatim>\<open>(x[0] - 5)**2\<close> of the specification's one-dimensional scenario. On a
  point \<^verbatim>\<open>x[0]\<close> is the first coordinate; on a two-dimensional array it is the first row,
  and the result has one entry per coordinate of that row. (Python raises on an empty
  array, which the runs below do not reach.)
\<close>

definition square_of_first :: "vec \<Rightarrow> real" where
  "square_of_first x = (case x of [] \<Rightarrow> 0 | a # _ \<Rightarrow> (a - 5) ^ 2)"

definition square_of_first_rows :: "vec list \<Rightarrow> real list" where
  "square_of_first_rows P = (case P of [] \<Rightarrow> [] | r # _ \<Rightarrow> map (\<lambda>a. (a - 5) ^ 2) r)"

section \<open>Contracts of the inputs\<close>

text \<open>Real bounds, as many upper as lower, each pair ordered.\<close>

definition domain_ok :: "vec \<Rightarrow> vec \<Rightarrow> bool" where
  "domain_ok lower upper = list_all2 (\<le>) lower upper"

text \<open>
  The search domain of the specification, as the caller passes it: two sequences of real
  numbers, as many upper as lower bounds, each pair ordered.
\<close>

definition search_domain :: "pyseq \<Rightarrow> pyseq \<Rightarrow> bool" where
  "search_domain lower upper =
     (finite_seq lower \<and> finite_seq upper \<and> domain_ok (reals lower) (reals upper))"


definition in_box :: "vec \<Rightarrow> vec \<Rightarrow> vec \<Rightarrow> bool" where
  "in_box lower upper x = (list_all2 (\<le>) lower x \<and> list_all2 (\<le>) x upper)"

text \<open>The library's contract for a uniform sample: it lies between ordered bounds.\<close>

definition uniform_ok :: "'g sampler \<Rightarrow> bool" where
  "uniform_ok R = (\<forall>lo hi g. lo \<le> hi \<longrightarrow> lo \<le> fst (np_uniform R lo hi g) \<and> fst (np_uniform R lo hi g) \<le> hi)"

text \<open>
  The library's contract for a sample without replacement (\<^verbatim>\<open>replace=False\<close>) and
  with the default weights: \<open>k\<close> distinct elements of the candidates, when there are at
  least \<open>k\<close> of them. With replacement nothing of the kind is promised.
\<close>

definition choice_ok :: "'g sampler \<Rightarrow> bool" where
  "choice_ok R = (\<forall>a k g. k \<le> length a \<longrightarrow> distinct a \<longrightarrow>
     length (fst (np_choice R a k False None g)) = k \<and>
     distinct (fst (np_choice R a k False None g)) \<and>
     set (fst (np_choice R a k False None g)) \<subseteq> set a)"

text \<open>The library's contract for \<^verbatim>\<open>np.random.rand\<close>: a sample of the half-open unit interval.\<close>

definition rand_ok :: "'g sampler \<Rightarrow> bool" where
  "rand_ok R = (\<forall>g. 0 \<le> fst (np_rand R g) \<and> fst (np_rand R g) < 1)"

text \<open>
  The generator state after \<open>i\<close> successive calls of \<^verbatim>\<open>np.random.rand\<close>, and the sample the
  next call returns.
\<close>

definition rand_state :: "'g sampler \<Rightarrow> nat \<Rightarrow> 'g \<Rightarrow> 'g" where
  "rand_state R i g = ((\<lambda>h. snd (np_rand R h)) ^^ i) g"

definition rand_draw :: "'g sampler \<Rightarrow> 'g \<Rightarrow> nat \<Rightarrow> real" where
  "rand_draw R g i = fst (np_rand R (rand_state R i g))"

text \<open>
  The shape of a swarm of \<open>n\<close> particles: three arrays of \<open>n\<close> rows, and \<^verbatim>\<open>x_swarm\<close> a view
  of one of these rows.
\<close>

definition swarm_ok :: "nat \<Rightarrow> swarm \<Rightarrow> bool" where
  "swarm_ok n s =
     (length (X s) = n \<and> length (V s) = n \<and> length (X_best s) = n \<and>
      (case x_swarm s of In_X k \<Rightarrow> k < n | In_X_best k \<Rightarrow> k < n))"

text \<open>No personal best is worse than the particle's position.\<close>

definition bests_ok :: "(vec \<Rightarrow> real) \<Rightarrow> swarm \<Rightarrow> bool" where
  "bests_ok f s = (\<forall>k<length (X s). f (X_best s ! k) \<le> f (X s ! k))"

text \<open>Positions and personal bests lie in the box; velocities have its dimension.\<close>

definition swarm_in_box :: "vec \<Rightarrow> vec \<Rightarrow> swarm \<Rightarrow> bool" where
  "swarm_in_box lower upper s =
     ((\<forall>x\<in>set (X s). in_box lower upper x) \<and>
      (\<forall>x\<in>set (X_best s). in_box lower upper x) \<and>
      (\<forall>v\<in>set (V s). length v = length lower))"

section \<open>Facts about the library model\<close>

lemma np_argmin_empty: "np_argmin [] = Inl ValueError"
  by (simp add: np_argmin_def)


lemma draw_uniform_evals: "draw_uniform R lo hi w = (x, w1) \<Longrightarrow> evals w1 = evals w"
  by (auto simp: draw_uniform_def split: prod.splits)

lemma draw_rand_evals: "draw_rand R w = (x, w1) \<Longrightarrow> evals w1 = evals w"
  by (auto simp: draw_rand_def split: prod.splits)

lemma draw_choice_evals: "draw_choice R a k replace p w = (x, w1) \<Longrightarrow> evals w1 = evals w"
  by (auto simp: draw_choice_def split: prod.splits)

lemma uniform_row_evals: "uniform_row R bs w = (xs, w1) \<Longrightarrow> evals w1 = evals w"
  by (induction R bs w arbitrary: xs w1 rule: uniform_row.induct)
     (auto split: prod.splits dest: draw_uniform_evals)

lemma uniform_rows_evals: "uniform_rows R bs k w = (rs, w1) \<Longrightarrow> evals w1 = evals w"
  by (induction R bs k w arbitrary: rs w1 rule: uniform_rows.induct)
     (auto split: prod.splits dest: uniform_row_evals)

lemma rand_vec_evals: "rand_vec R k w = (us, w1) \<Longrightarrow> evals w1 = evals w"
  by (induction R k w arbitrary: us w1 rule: rand_vec.induct)
     (auto split: prod.splits dest: draw_rand_evals)

lemma uniform_row_length: "uniform_row R bs w = (xs, w1) \<Longrightarrow> length xs = length bs"
  by (induction R bs w arbitrary: xs w1 rule: uniform_row.induct) (auto split: prod.splits)

lemma uniform_rows_length: "uniform_rows R bs k w = (rs, w1) \<Longrightarrow> length rs = k"
  by (induction R bs k w arbitrary: rs w1 rule: uniform_rows.induct) (auto split: prod.splits)

lemma rand_vec_length: "rand_vec R k w = (us, w1) \<Longrightarrow> length us = k"
  by (induction R k w arbitrary: us w1 rule: rand_vec.induct) (auto split: prod.splits)

lemma rand_state_Suc: "rand_state R i (snd (np_rand R g)) = rand_state R (Suc i) g"
  unfolding rand_state_def funpow_Suc_right by simp

lemma rand_draw_Suc: "rand_draw R (snd (np_rand R g)) i = rand_draw R g (Suc i)"
  by (simp add: rand_draw_def rand_state_Suc)

lemma rand_vec_draws:
  "rand_vec R k w = (map (rand_draw R (gen w)) [0..<k], w\<lparr>gen := rand_state R k (gen w)\<rparr>)"
proof (induction k arbitrary: w)
  case 0
  show ?case by (simp add: rand_state_def)
next
  case (Suc k)
  let ?g = "snd (np_rand R (gen w))"
  have d: "draw_rand R w = (fst (np_rand R (gen w)), w\<lparr>gen := ?g\<rparr>)"
    by (simp add: draw_rand_def split: prod.splits)
  have m: "map (rand_draw R (gen w)) [0..<Suc k]
             = rand_draw R (gen w) 0 # map (rand_draw R ?g) [0..<k]"
    by (simp add: upt_conv_Cons map_Suc_upt[symmetric] rand_draw_Suc del: upt_Suc)
  have z: "rand_draw R (gen w) 0 = fst (np_rand R (gen w))"
    by (simp add: rand_draw_def rand_state_def)
  show ?case
    using d Suc.IH[of "w\<lparr>gen := ?g\<rparr>"] m z by (simp add: rand_state_Suc del: upt_Suc)
qed

lemma rand_draw_between: "rand_ok R \<Longrightarrow> 0 \<le> rand_draw R g i \<and> rand_draw R g i < 1"
  by (simp add: rand_ok_def rand_draw_def)

lemma draw_uniform_between:
  "uniform_ok R \<Longrightarrow> lo \<le> hi \<Longrightarrow> draw_uniform R lo hi w = (x, w1) \<Longrightarrow> lo \<le> x \<and> x \<le> hi"
  unfolding uniform_ok_def draw_uniform_def
  by (metis (mono_tags, lifting) fst_conv prod.case_eq_if)

lemma uniform_row_between:
  "uniform_ok R \<Longrightarrow> \<forall>(lo, hi)\<in>set bs. lo \<le> hi \<Longrightarrow> uniform_row R bs w = (xs, w1)
     \<Longrightarrow> list_all2 (\<lambda>(lo, hi) x. lo \<le> x \<and> x \<le> hi) bs xs"
proof (induction bs arbitrary: w xs w1)
  case Nil
  then show ?case by simp
next
  case (Cons b bs)
  obtain lo hi where b: "b = (lo, hi)" by (cases b)
  obtain x wa where d: "draw_uniform R lo hi w = (x, wa)" by (cases "draw_uniform R lo hi w")
  obtain ys wb where r: "uniform_row R bs wa = (ys, wb)" by (cases "uniform_row R bs wa")
  have xs: "xs = x # ys" using Cons.prems(3) b d r by simp
  have "lo \<le> hi" using Cons.prems(2) b by simp
  then have bt: "lo \<le> x \<and> x \<le> hi" using draw_uniform_between[OF Cons.prems(1) _ d] by simp
  have "\<forall>(lo, hi)\<in>set bs. lo \<le> hi" using Cons.prems(2) by simp
  then have "list_all2 (\<lambda>(lo, hi) x. lo \<le> x \<and> x \<le> hi) bs ys"
    using Cons.IH[OF Cons.prems(1) _ r] by simp
  then show ?case using xs b bt by simp
qed

lemma uniform_row_in_box:
  assumes "uniform_ok R" "domain_ok lower upper" "uniform_row R (zip lower upper) w = (xs, w1)"
  shows "in_box lower upper xs"
proof -
  have len: "length lower = length upper"
    using assms(2) by (simp add: domain_ok_def list_all2_lengthD)
  have ord: "\<forall>(lo, hi)\<in>set (zip lower upper). lo \<le> hi"
    using assms(2) by (auto simp: domain_ok_def list_all2_iff)
  have a: "list_all2 (\<lambda>(lo, hi) x. lo \<le> x \<and> x \<le> hi) (zip lower upper) xs"
    using uniform_row_between[OF assms(1) ord assms(3)] .
  have l: "length xs = length lower" using list_all2_lengthD[OF a] len by simp
  have "\<forall>i<length lower. lower ! i \<le> xs ! i \<and> xs ! i \<le> upper ! i"
  proof (intro allI impI)
    fix i assume i: "i < length lower"
    then have "(\<lambda>(lo, hi) x. lo \<le> x \<and> x \<le> hi) (zip lower upper ! i) (xs ! i)"
      using list_all2_nthD[OF a, of i] len by simp
    then show "lower ! i \<le> xs ! i \<and> xs ! i \<le> upper ! i" using i len by simp
  qed
  then show ?thesis using l len by (simp add: in_box_def list_all2_conv_all_nth)
qed

lemma uniform_rows_in_box:
  "uniform_ok R \<Longrightarrow> domain_ok lower upper \<Longrightarrow> uniform_rows R (zip lower upper) k w = (rs, w1)
     \<Longrightarrow> \<forall>x\<in>set rs. in_box lower upper x"
proof (induction k arbitrary: w rs w1)
  case 0
  then show ?case by simp
next
  case (Suc k)
  obtain r wa where a: "uniform_row R (zip lower upper) w = (r, wa)"
    by (cases "uniform_row R (zip lower upper) w")
  obtain ys wb where b: "uniform_rows R (zip lower upper) k wa = (ys, wb)"
    by (cases "uniform_rows R (zip lower upper) k wa")
  have rs: "rs = r # ys" using Suc.prems(3) a b by simp
  show ?case
    using rs uniform_row_in_box[OF Suc.prems(1,2) a] Suc.IH[OF Suc.prems(1,2) b] by simp
qed

lemma in_box_length: "in_box lower upper x \<Longrightarrow> length x = length lower"
  by (auto simp: in_box_def dest: list_all2_lengthD)

lemma np_clip_length: "length (np_clip x lo hi) = min (min (length x) (length lo)) (length hi)"
  by (simp add: np_clip_def)

lemma np_clip_nth:
  "i < length x \<Longrightarrow> i < length lo \<Longrightarrow> i < length hi
     \<Longrightarrow> np_clip x lo hi ! i = min (max (x ! i) (lo ! i)) (hi ! i)"
  by (simp add: np_clip_def)

lemma np_clip_in_box:
  assumes "domain_ok lower upper" "length x = length lower"
  shows "in_box lower upper (np_clip x lower upper)"
proof -
  have len: "length upper = length lower"
    using assms(1) by (auto simp: domain_ok_def dest: list_all2_lengthD)
  have ord: "\<And>i. i < length lower \<Longrightarrow> lower ! i \<le> upper ! i"
    using assms(1) by (simp add: domain_ok_def list_all2_conv_all_nth)
  have l: "length (np_clip x lower upper) = length lower"
    by (simp add: np_clip_length assms(2) len)
  have "\<And>i. i < length lower \<Longrightarrow>
          lower ! i \<le> np_clip x lower upper ! i \<and> np_clip x lower upper ! i \<le> upper ! i"
    using ord by (simp add: np_clip_nth assms(2) len)
  then show ?thesis
    using l len by (simp add: in_box_def list_all2_conv_all_nth)
qed

lemma np_where_length:
  "length (np_where c x y) = min (length c) (min (length x) (length y))"
  by (simp add: np_where_def)

lemma np_where_nth:
  "i < length c \<Longrightarrow> i < length x \<Longrightarrow> i < length y
     \<Longrightarrow> np_where c x y ! i = (if c ! i then x ! i else y ! i)"
  by (simp add: np_where_def)

lemma np_where_in_box:
  assumes "in_box lower upper x" "in_box lower upper y" "length c = length lower"
  shows "in_box lower upper (np_where c x y)"
proof -
  have lx: "length x = length lower" and ly: "length y = length lower"
    using assms(1,2) by (simp_all add: in_box_length)
  have lu: "length upper = length lower"
    using assms(1) lx by (auto simp: in_box_def dest: list_all2_lengthD)
  have bx: "\<And>i. i < length lower \<Longrightarrow> lower ! i \<le> x ! i \<and> x ! i \<le> upper ! i"
    using assms(1) lx by (simp add: in_box_def list_all2_conv_all_nth)
  have by': "\<And>i. i < length lower \<Longrightarrow> lower ! i \<le> y ! i \<and> y ! i \<le> upper ! i"
    using assms(2) ly by (simp add: in_box_def list_all2_conv_all_nth)
  have l: "length (np_where c x y) = length lower"
    by (simp add: np_where_length lx ly assms(3))
  have "\<And>i. i < length lower \<Longrightarrow>
          lower ! i \<le> np_where c x y ! i \<and> np_where c x y ! i \<le> upper ! i"
    using bx by' by (simp add: np_where_nth lx ly assms(3))
  then show ?thesis
    using l lu by (simp add: in_box_def list_all2_conv_all_nth)
qed

section \<open>Facts about differential evolution\<close>

subsection \<open>Differential evolution: one target\<close>


lemma de_trial_evals:
  "de_trial R lower upper n mutation crossover j population w = (r, w1) \<Longrightarrow> evals w1 = evals w"
proof -
  assume a: "de_trial R lower upper n mutation crossover j population w = (r, w1)"
  show ?thesis
  proof (cases "length (remove1 j [0..<n]) < 3")
    case True
    then show ?thesis using a by (simp add: de_trial_def Let_def)
  next
    case False
    obtain idx wa where c: "draw_choice R (remove1 j [0..<n]) 3 False None w = (idx, wa)"
      by (cases "draw_choice R (remove1 j [0..<n]) 3 False None w")
    obtain us wb where u: "rand_vec R (length lower) wa = (us, wb)"
      by (cases "rand_vec R (length lower) wa")
    have "w1 = wa \<or> w1 = wb"
      using a False c u by (auto simp: de_trial_def Let_def split: if_splits list.splits)
    then show ?thesis
      using draw_choice_evals[OF c] rand_vec_evals[OF u] by auto
  qed
qed

lemma de_trial_in_box:
  assumes "domain_ok lower upper" "\<forall>x\<in>set population. in_box lower upper x"
    "j < length population"
    "de_trial R lower upper n mutation crossover j population w = (Inr t, w1)"
  shows "in_box lower upper t"
proof -
  have big: "\<not> length (remove1 j [0..<n]) < 3"
    using assms(4) by (auto simp: de_trial_def Let_def)
  obtain idx wa where ch: "draw_choice R (remove1 j [0..<n]) 3 False None w = (idx, wa)"
    by (cases "draw_choice R (remove1 j [0..<n]) 3 False None w")
  obtain us wb where us: "rand_vec R (length lower) wa = (us, wb)"
    by (cases "rand_vec R (length lower) wa")
  obtain a b c where idx: "idx = [a, b, c]"
    using assms(4) big ch by (auto simp: de_trial_def Let_def split: list.splits)
  have abc: "a < length population" "b < length population" "c < length population"
    using assms(4) big ch idx by (auto simp: de_trial_def Let_def split: if_splits)
  have t: "t = np_where (map (\<lambda>u. u < crossover) us)
                  (np_clip (vadd (population ! a) (vscale (vsub (population ! b) (population ! c)) mutation))
                     lower upper)
                  (population ! j)"
    using assms(4) big ch idx abc us by (simp add: de_trial_def Let_def)
  have len: "\<And>i. i < length population \<Longrightarrow> length (population ! i) = length lower"
    using assms(2) by (auto intro: in_box_length)
  have "length (vadd (population ! a) (vscale (vsub (population ! b) (population ! c)) mutation))
          = length lower"
    using abc by (simp add: vadd_def vscale_def vsub_def len)
  then have clip: "in_box lower upper
      (np_clip (vadd (population ! a) (vscale (vsub (population ! b) (population ! c)) mutation))
         lower upper)"
    by (rule np_clip_in_box[OF assms(1)])
  have tgt: "in_box lower upper (population ! j)" using assms(2,3) by simp
  have "length (map (\<lambda>u. u < crossover) us) = length lower"
    using rand_vec_length[OF us] by simp
  then show ?thesis unfolding t by (rule np_where_in_box[OF clip tgt])
qed

lemma de_update_cases:
  assumes "de_update R f lower upper n mutation crossover j population w = (Inr population', w')"
  obtains t w1 where "de_trial R lower upper n mutation crossover j population w = (Inr t, w1)"
    "population' = (if f t < f (population ! j) then population[j := t] else population)"
    "evals w' = evals w + 2"
proof -
  obtain t w1 where tr: "de_trial R lower upper n mutation crossover j population w = (Inr t, w1)"
    using assms by (auto simp: de_update_def split: prod.splits sum.splits)
  have p: "population' = (if f t < f (population ! j) then population[j := t] else population)"
    using assms tr by (auto simp: de_update_def call_def split: if_splits)
  have "evals w' = evals w1 + 2"
    using assms tr by (auto simp: de_update_def call_def split: if_splits)
  then have "evals w' = evals w + 2" using de_trial_evals[OF tr] by simp
  then show ?thesis using that tr p by blast
qed

lemma de_update_error:
  "de_update R f lower upper n mutation crossover j population w = (Inl e, w')
     \<Longrightarrow> de_trial R lower upper n mutation crossover j population w = (Inl e, w')"
  by (auto simp: de_update_def call_def split: prod.splits sum.splits if_splits)

lemma de_update_length:
  "de_update R f lower upper n mutation crossover j population w = (Inr population', w')
     \<Longrightarrow> length population' = length population"
  by (erule de_update_cases) simp

lemma de_update_in_box:
  assumes "domain_ok lower upper" "\<forall>x\<in>set population. in_box lower upper x"
    "j < length population"
    "de_update R f lower upper n mutation crossover j population w = (Inr population', w')"
  shows "\<forall>x\<in>set population'. in_box lower upper x"
proof -
  obtain t w1 where tr: "de_trial R lower upper n mutation crossover j population w = (Inr t, w1)"
    and p: "population' = (if f t < f (population ! j) then population[j := t] else population)"
    using assms(4) by (rule de_update_cases)
  have "in_box lower upper t" using de_trial_in_box[OF assms(1,2,3) tr] .
  then show ?thesis using p assms(2) by (auto dest: set_update_subset_insert[THEN subsetD])
qed

lemma de_update_slot:
  assumes "de_update R f lower upper n mutation crossover j population w = (Inr population', w')"
    "k < length population"
  shows "f (population' ! k) \<le> f (population ! k)"
    and "population' ! k \<noteq> population ! k \<Longrightarrow> k = j \<and> f (population' ! k) < f (population ! k)"
proof -
  obtain t w1 where
    p: "population' = (if f t < f (population ! j) then population[j := t] else population)"
    using assms(1) by (rule de_update_cases)
  show "f (population' ! k) \<le> f (population ! k)"
    using p assms(2) by (cases "k = j") auto
  show "population' ! k \<noteq> population ! k \<Longrightarrow> k = j \<and> f (population' ! k) < f (population ! k)"
    using p assms(2) by (cases "k = j") (auto split: if_splits)
qed

subsection \<open>Differential evolution: passes\<close>

lemma de_pass_length:
  "de_pass R f lower upper n mutation crossover js population w = (Inr population', w')
     \<Longrightarrow> length population' = length population"
proof (induction js arbitrary: population w)
  case Nil
  then show ?case by simp
next
  case (Cons j js)
  then show ?case
    by (auto split: prod.splits sum.splits dest: de_update_length)
qed

lemma de_pass_in_box:
  "domain_ok lower upper \<Longrightarrow> \<forall>x\<in>set population. in_box lower upper x
     \<Longrightarrow> \<forall>j\<in>set js. j < length population
     \<Longrightarrow> de_pass R f lower upper n mutation crossover js population w = (Inr population', w')
     \<Longrightarrow> \<forall>x\<in>set population'. in_box lower upper x"
proof (induction js arbitrary: population w)
  case Nil
  then show ?case by simp
next
  case (Cons j js)
  obtain p1 w1 where
    u: "de_update R f lower upper n mutation crossover j population w = (Inr p1, w1)"
    and r: "de_pass R f lower upper n mutation crossover js p1 w1 = (Inr population', w')"
    using Cons.prems(4) by (auto split: prod.splits sum.splits)
  have j: "j < length population" using Cons.prems(3) by simp
  have b1: "\<forall>x\<in>set p1. in_box lower upper x"
    using de_update_in_box[OF Cons.prems(1,2) j u] .
  have "\<forall>j\<in>set js. j < length p1"
    using Cons.prems(3) de_update_length[OF u] by simp
  then show ?case using Cons.IH[OF Cons.prems(1) b1 _ r] by simp
qed

lemma de_pass_slot:
  "de_pass R f lower upper n mutation crossover js population w = (Inr population', w')
     \<Longrightarrow> k < length population \<Longrightarrow> f (population' ! k) \<le> f (population ! k)"
proof (induction js arbitrary: population w)
  case Nil
  then show ?case by simp
next
  case (Cons j js)
  obtain p1 w1 where
    u: "de_update R f lower upper n mutation crossover j population w = (Inr p1, w1)"
    and r: "de_pass R f lower upper n mutation crossover js p1 w1 = (Inr population', w')"
    using Cons.prems(1) by (auto split: prod.splits sum.splits)
  have "f (p1 ! k) \<le> f (population ! k)" using de_update_slot(1)[OF u Cons.prems(2)] .
  moreover have "f (population' ! k) \<le> f (p1 ! k)"
    using Cons.IH[OF r] Cons.prems(2) de_update_length[OF u] by simp
  ultimately show ?case by simp
qed

lemma de_pass_append:
  "de_pass R f lower upper n mutation crossover (js @ ks) population w =
     (case de_pass R f lower upper n mutation crossover js population w of
        (Inl e, w1) \<Rightarrow> (Inl e, w1)
      | (Inr p, w1) \<Rightarrow> de_pass R f lower upper n mutation crossover ks p w1)"
  by (induction js arbitrary: population w) (auto split: prod.splits sum.splits)

lemma de_steps_length:
  "de_steps R f lower upper n mutation crossover k population w = (Inr population', w')
     \<Longrightarrow> length population' = length population"
proof (induction k arbitrary: population w)
  case 0
  then show ?case by simp
next
  case (Suc k)
  then show ?case
    by (auto split: prod.splits sum.splits dest: de_pass_length)
qed

lemma de_steps_add:
  "de_steps R f lower upper n mutation crossover (k + m) population w =
     (case de_steps R f lower upper n mutation crossover k population w of
        (Inl e, w1) \<Rightarrow> (Inl e, w1)
      | (Inr p, w1) \<Rightarrow> de_steps R f lower upper n mutation crossover m p w1)"
  by (induction k arbitrary: population w) (auto split: prod.splits sum.splits)

lemma de_steps_as_pass:
  "de_steps R f lower upper n mutation crossover k population w =
     de_pass R f lower upper n mutation crossover (concat (replicate k [0..<length population]))
       population w"
proof (induction k arbitrary: population w)
  case 0
  then show ?case by simp
next
  case (Suc k)
  show ?case
    by (auto simp: de_pass_append Suc.IH split: prod.splits sum.splits dest: de_pass_length)
qed

lemma de_steps_slot:
  "de_steps R f lower upper n mutation crossover k population w = (Inr population', w')
     \<Longrightarrow> i < length population \<Longrightarrow> f (population' ! i) \<le> f (population ! i)"
  unfolding de_steps_as_pass by (rule de_pass_slot)

lemma de_steps_in_box:
  assumes "domain_ok lower upper" "\<forall>x\<in>set population. in_box lower upper x"
    "de_steps R f lower upper n mutation crossover k population w = (Inr population', w')"
  shows "\<forall>x\<in>set population'. in_box lower upper x"
proof -
  have "\<forall>j\<in>set (concat (replicate k [0..<length population])). j < length population"
    by auto
  then show ?thesis
    using de_pass_in_box[OF assms(1,2)] assms(3) unfolding de_steps_as_pass by blast
qed

lemma Min_image_mono:
  assumes "length (q :: 'a list) = length p" "p \<noteq> []"
    "\<And>i. i < length p \<Longrightarrow> (g (q ! i) :: real) \<le> g (p ! i)"
  shows "Min (g ` set q) \<le> Min (g ` set p)"
proof -
  have "Min (g ` set p) \<in> g ` set p" using assms(2) by (intro Min_in) auto
  then obtain i where i: "i < length p" "Min (g ` set p) = g (p ! i)"
    by (auto simp: in_set_conv_nth)
  have "g (q ! i) \<in> g ` set q" using i(1) assms(1) by simp
  then have "Min (g ` set q) \<le> g (q ! i)" by (intro Min_le) auto
  then show ?thesis using assms(3)[OF i(1)] i(2) by simp
qed

subsection \<open>Differential evolution: when it fails and when it returns\<close>

lemma draw_choice_three:
  assumes "choice_ok R" "4 \<le> n" "j < n"
  obtains a b c g1 where
    "np_choice R (remove1 j [0..<n]) 3 False None (gen w) = ([a, b, c], g1)"
    "draw_choice R (remove1 j [0..<n]) 3 False None w = ([a, b, c], w\<lparr>gen := g1\<rparr>)"
    "distinct [a, b, c]" "a < n" "b < n" "c < n" "a \<noteq> j" "b \<noteq> j" "c \<noteq> j"
proof -
  let ?cs = "remove1 j [0..<n]"
  obtain idx g where g: "np_choice R ?cs 3 False None (gen w) = (idx, g)"
    by (cases "np_choice R ?cs 3 False None (gen w)")
  have len: "3 \<le> length ?cs" using assms(2,3) by (simp add: length_remove1)
  have dist: "distinct ?cs" by simp
  have c: "length idx = 3 \<and> distinct idx \<and> set idx \<subseteq> set ?cs"
    using assms(1) len dist g unfolding choice_ok_def
    by (metis fst_conv)
  then obtain a b c where idx: "idx = [a, b, c]"
    by (auto simp: numeral_3_eq_3 length_Suc_conv)
  have mem: "set idx \<subseteq> {0..<n} - {j}" using c by auto
  have d: "draw_choice R ?cs 3 False None w = ([a, b, c], w\<lparr>gen := g\<rparr>)"
    using g idx by (simp add: draw_choice_def)
  show ?thesis
    using that[OF g[unfolded idx] d] c mem unfolding idx by auto
qed

lemma de_trial_ok:
  assumes "choice_ok R" "4 \<le> n" "j < n" "length population = n"
  obtains a b c g1 where
    "np_choice R (remove1 j [0..<n]) 3 False None (gen w) = ([a, b, c], g1)"
    "distinct [a, b, c]" "a < n" "b < n" "c < n" "a \<noteq> j" "b \<noteq> j" "c \<noteq> j"
    "de_trial R lower upper n mutation crossover j population w =
       (Inr (np_where (map (\<lambda>i. rand_draw R g1 i < crossover) [0..<length lower])
               (np_clip (vadd (population ! a)
                           (vscale (vsub (population ! b) (population ! c)) mutation))
                  lower upper)
               (population ! j)), w\<lparr>gen := rand_state R (length lower) g1\<rparr>)"
proof -
  obtain a b c g1 where
    np: "np_choice R (remove1 j [0..<n]) 3 False None (gen w) = ([a, b, c], g1)"
    and ch: "draw_choice R (remove1 j [0..<n]) 3 False None w = ([a, b, c], w\<lparr>gen := g1\<rparr>)"
    and p: "distinct [a, b, c]" "a < n" "b < n" "c < n" "a \<noteq> j" "b \<noteq> j" "c \<noteq> j"
    using assms(1,2,3) by (rule draw_choice_three)
  have us: "rand_vec R (length lower) (w\<lparr>gen := g1\<rparr>)
              = (map (rand_draw R g1) [0..<length lower],
                 w\<lparr>gen := rand_state R (length lower) g1\<rparr>)"
    using rand_vec_draws[of R "length lower" "w\<lparr>gen := g1\<rparr>"] by simp
  have len: "\<not> length (remove1 j [0..<n]) < 3"
    using assms(2,3) by (simp add: length_remove1)
  have "de_trial R lower upper n mutation crossover j population w =
       (Inr (np_where (map (\<lambda>i. rand_draw R g1 i < crossover) [0..<length lower])
               (np_clip (vadd (population ! a)
                           (vscale (vsub (population ! b) (population ! c)) mutation))
                  lower upper)
               (population ! j)), w\<lparr>gen := rand_state R (length lower) g1\<rparr>)"
    using len ch us p(2,3,4) assms(4) by (simp add: de_trial_def Let_def o_def)
  then show ?thesis using that np p by blast
qed








lemma de_best_world: "de_best F population w = (r, w1) \<Longrightarrow> w1 = w\<lparr>evals := evals w + 1\<rparr>"
  by (auto simp: de_best_def call_rows_def split: sum.splits if_splits)

subsection \<open>The initial sampling\<close>



lemma np_random_uniform_cases:
  assumes "np_random_uniform R low high n (length low) w = (Inr rows, w1)"
  obtains ub where "np_broadcast (length low) (map num high) = Inr ub" "0 \<le> n"
    "uniform_rows R (zip (map num low) ub) (nat n) w = (rows, w1)" "length rows = nat n"
    "evals w1 = evals w" "length high = length low \<or> length high = 1"
proof -
  obtain lo hi where b2: "np_broadcast2 low high = Inr (lo, hi)"
    using assms by (cases "np_broadcast2 low high") (auto simp: np_random_uniform_def)
  have n: "0 \<le> n"
    using assms b2 by (auto simp: np_random_uniform_def split: if_splits)
  obtain l where l: "np_broadcast (length low) (map num lo) = Inr l"
    using assms b2 n
    by (cases "np_broadcast (length low) (map num lo)")
       (auto simp: np_random_uniform_def split: if_splits)
  obtain h where h: "np_broadcast (length low) (map num hi) = Inr h"
    using assms b2 n l
    by (cases "np_broadcast (length low) (map num hi)")
       (auto simp: np_random_uniform_def split: if_splits)
  have r: "uniform_rows R (zip l h) (nat n) w = (rows, w1)"
    using assms b2 n l h by (auto simp: np_random_uniform_def split: if_splits prod.splits)
  have shape: "length high = length low \<or> length high = 1"
    using b2 l h by (auto simp: np_broadcast2_def np_broadcast_def split: if_splits)
  have ll: "l = map num low"
    using b2 l shape by (auto simp: np_broadcast2_def np_broadcast_def split: if_splits)
  have hh: "np_broadcast (length low) (map num high) = Inr h"
  proof (cases "length high = length low")
    case True
    then show ?thesis using b2 h by (auto simp: np_broadcast2_def)
  next
    case False
    then have one: "length high = 1" using shape by simp
    then obtain a where a: "high = [a]" by (cases high) auto
    show ?thesis
      using False one b2 h unfolding a
      by (auto simp: np_broadcast2_def np_broadcast_def split: if_splits)
  qed
  show ?thesis
    using that[OF hh n r[unfolded ll] uniform_rows_length[OF r] uniform_rows_evals[OF r] shape] .
qed

lemma np_random_uniform_finite:
  assumes "np_random_uniform R low high n (length low) w = (Inr rows, w1)"
    "length high = length low"
  shows "list_all is_Num low \<and> list_all is_Num high"
  using assms by (auto simp: np_random_uniform_def np_broadcast2_def split: if_splits)

lemma np_random_uniform_error:
  "np_random_uniform R low high n d w = (Inl e, w1) \<Longrightarrow> w1 = w"
  by (auto simp: np_random_uniform_def split: sum.splits prod.splits if_splits)




lemma reals_length: "length (reals s) = length (items s)"
  by (simp add: reals_def)

lemma np_broadcast_same: "length v = d \<Longrightarrow> np_broadcast d v = Inr v"
  by (simp add: np_broadcast_def)

lemma domain_ok_length: "domain_ok lower upper \<Longrightarrow> length upper = length lower"
  by (auto simp: domain_ok_def dest: list_all2_lengthD)


section \<open>Facts about particle swarm optimization\<close>

lemma pso_update_fields:
  assumes "pso_update R f lower upper \<omega> \<phi>1 \<phi>2 i s w = (s', w')"
    and "i < length (X s)" "length (V s) = length (X s)" "length (X_best s) = length (X s)"
  obtains r1 r2 w1 w2 v x' where
    "uniform_row R (replicate (length lower) (0, \<phi>1)) w = (r1, w1)"
    "uniform_row R (replicate (length lower) (0, \<phi>2)) w1 = (r2, w2)"
    "v = vadd (vadd (vscale (V s ! i) \<omega>) (vmul r1 (vsub (X_best s ! i) (X s ! i))))
              (vmul r2 (vsub (swarm_best s) (X s ! i)))"
    "x' = np_clip (vadd (X s ! i) v) lower upper"
    "V s' = (V s)[i := v]" "X s' = (X s)[i := x']"
    "X_best s' = (if f x' < f (X_best s ! i) then (X_best s)[i := x'] else X_best s)"
    "x_swarm s' = (if f (X_best s' ! i) < f (swarm_best (s'\<lparr>x_swarm := x_swarm s\<rparr>))
                   then In_X_best i else x_swarm s)"
    "evals w' = evals w + 4"
proof -
  obtain r1 w1 where r1: "uniform_row R (replicate (length lower) (0, \<phi>1)) w = (r1, w1)"
    by (cases "uniform_row R (replicate (length lower) (0, \<phi>1)) w")
  obtain r2 w2 where r2: "uniform_row R (replicate (length lower) (0, \<phi>2)) w1 = (r2, w2)"
    by (cases "uniform_row R (replicate (length lower) (0, \<phi>2)) w1")
  define v where "v = vadd (vadd (vscale (V s ! i) \<omega>) (vmul r1 (vsub (X_best s ! i) (X s ! i))))
              (vmul r2 (vsub (swarm_best s) (X s ! i)))"
  define x' where "x' = np_clip (vadd (X s ! i) v) lower upper"
  have e: "evals w2 = evals w"
    using uniform_row_evals[OF r1] uniform_row_evals[OF r2] by simp
  have iv: "i < length (V s)" and ib: "i < length (X_best s)" using assms(2,3,4) by simp_all
  have res: "s' = (let s2 = s\<lparr>V := (V s)[i := v], X := (X s)[i := x']\<rparr>;
                     s3 = (if f x' < f (X_best s ! i) then s2\<lparr>X_best := (X_best s)[i := x']\<rparr> else s2)
                 in if f (X_best s3 ! i) < f (swarm_best s3) then s3\<lparr>x_swarm := In_X_best i\<rparr> else s3)"
    and w': "w' = w2\<lparr>evals := evals w2 + 4\<rparr>"
  proof -
    have s': "s' = fst (pso_update R f lower upper \<omega> \<phi>1 \<phi>2 i s w)"
      and ww: "w' = snd (pso_update R f lower upper \<omega> \<phi>1 \<phi>2 i s w)"
      using assms(1) by simp_all
    show "s' = (let s2 = s\<lparr>V := (V s)[i := v], X := (X s)[i := x']\<rparr>;
                     s3 = (if f x' < f (X_best s ! i) then s2\<lparr>X_best := (X_best s)[i := x']\<rparr> else s2)
                 in if f (X_best s3 ! i) < f (swarm_best s3) then s3\<lparr>x_swarm := In_X_best i\<rparr> else s3)"
      unfolding s' using assms(2) iv
      by (simp add: pso_update_def Let_def call_def r1 r2 v_def x'_def)
    show "w' = w2\<lparr>evals := evals w2 + 4\<rparr>"
      unfolding ww by (simp add: pso_update_def Let_def call_def r1 r2)
  qed
  have 5: "V s' = (V s)[i := v]" and 6: "X s' = (X s)[i := x']"
    and 7: "X_best s' = (if f x' < f (X_best s ! i) then (X_best s)[i := x'] else X_best s)"
    unfolding res by (simp_all add: Let_def)
  have 8: "x_swarm s' = (if f (X_best s' ! i) < f (swarm_best (s'\<lparr>x_swarm := x_swarm s\<rparr>))
                   then In_X_best i else x_swarm s)"
    unfolding res by (cases "x_swarm s") (simp_all add: Let_def swarm_best_def)
  have 9: "evals w' = evals w + 4" using w' e by simp
  show ?thesis using that[OF r1 r2 v_def x'_def 5 6 7 8 9] .
qed


lemma pso_update_swarm_ok:
  assumes "pso_update R f lower upper \<omega> \<phi>1 \<phi>2 i s w = (s', w')" "swarm_ok n s" "i < n"
  shows "swarm_ok n s'"
proof -
  have l: "i < length (X s)" "length (V s) = length (X s)" "length (X_best s) = length (X s)"
    using assms(2,3) by (simp_all add: swarm_ok_def)
  obtain v x' where vs: "V s' = (V s)[i := v]" and xs: "X s' = (X s)[i := x']"
    and bs: "X_best s' = (if f x' < f (X_best s ! i) then (X_best s)[i := x'] else X_best s)"
    and r: "x_swarm s' = (if f (X_best s' ! i) < f (swarm_best (s'\<lparr>x_swarm := x_swarm s\<rparr>))
                   then In_X_best i else x_swarm s)"
    by (rule pso_update_fields[OF assms(1) l]) blast
  have "x_swarm s' = In_X_best i \<or> x_swarm s' = x_swarm s" using r by auto
  then show ?thesis
    using assms(2,3) vs xs bs by (auto simp: swarm_ok_def)
qed

lemma pso_update_best_slot:
  assumes "pso_update R f lower upper \<omega> \<phi>1 \<phi>2 i s w = (s', w')" "swarm_ok n s" "i < n" "k < n"
  shows "f (X_best s' ! k) \<le> f (X_best s ! k)"
    and "X_best s' ! k \<noteq> X_best s ! k \<Longrightarrow>
           k = i \<and> X_best s' ! k = X s' ! i \<and> f (X_best s' ! k) < f (X_best s ! k)"
    and "f (X_best s' ! i) \<le> f (X s' ! i)"
proof -
  have l: "i < length (X s)" "length (V s) = length (X s)" "length (X_best s) = length (X s)"
    using assms(2,3) by (simp_all add: swarm_ok_def)
  have n: "length (X s) = n" using assms(2) by (simp add: swarm_ok_def)
  obtain x' where x: "X s' = (X s)[i := x']"
    and b: "X_best s' = (if f x' < f (X_best s ! i) then (X_best s)[i := x'] else X_best s)"
    by (rule pso_update_fields[OF assms(1) l]) blast
  show "f (X_best s' ! k) \<le> f (X_best s ! k)"
    using b l n assms(3,4) by (cases "k = i") auto
  show "X_best s' ! k \<noteq> X_best s ! k \<Longrightarrow>
           k = i \<and> X_best s' ! k = X s' ! i \<and> f (X_best s' ! k) < f (X_best s ! k)"
    using b x l n assms(3,4) by (cases "k = i") (auto split: if_splits)
  show "f (X_best s' ! i) \<le> f (X s' ! i)"
    using b x l by auto
qed

lemma pso_update_bests_ok:
  assumes "pso_update R f lower upper \<omega> \<phi>1 \<phi>2 i s w = (s', w')" "swarm_ok n s" "i < n"
    "bests_ok f s"
  shows "bests_ok f s'"
proof -
  have l: "i < length (X s)" "length (V s) = length (X s)" "length (X_best s) = length (X s)"
    using assms(2,3) by (simp_all add: swarm_ok_def)
  obtain x' where x: "X s' = (X s)[i := x']"
    and b: "X_best s' = (if f x' < f (X_best s ! i) then (X_best s)[i := x'] else X_best s)"
    by (rule pso_update_fields[OF assms(1) l]) blast
  have "f (X_best s' ! k) \<le> f (X s' ! k)" if k: "k < length (X s)" for k
  proof (cases "k = i")
    case True
    then show ?thesis using b x l by auto
  next
    case False
    then show ?thesis using b x l k assms(4) by (auto simp: bests_ok_def)
  qed
  then show ?thesis using x by (simp add: bests_ok_def)
qed

lemma pso_update_swarm_best:
  assumes "pso_update R f lower upper \<omega> \<phi>1 \<phi>2 i s w = (s', w')" "swarm_ok n s" "i < n"
    "bests_ok f s"
  shows "f (swarm_best s') \<le> f (swarm_best s)"
proof -
  have l: "i < length (X s)" "length (V s) = length (X s)" "length (X_best s) = length (X s)"
    using assms(2,3) by (simp_all add: swarm_ok_def)
  have n: "length (X s) = n" using assms(2) by (simp add: swarm_ok_def)
  obtain x' where x: "X s' = (X s)[i := x']"
    and b: "X_best s' = (if f x' < f (X_best s ! i) then (X_best s)[i := x'] else X_best s)"
    and r: "x_swarm s' = (if f (X_best s' ! i) < f (swarm_best (s'\<lparr>x_swarm := x_swarm s\<rparr>))
                   then In_X_best i else x_swarm s)"
    by (rule pso_update_fields[OF assms(1) l]) blast
  let ?mid = "s'\<lparr>x_swarm := x_swarm s\<rparr>"
  have bi: "f (X_best s' ! i) \<le> f (X_best s ! i)"
    using pso_update_best_slot(1)[OF assms(1,2,3,3)] .
  have after: "f (X_best s' ! i) \<le> f (X s' ! i)"
    using pso_update_best_slot(3)[OF assms(1,2,3,3)] .
  have old: "f (X_best s ! i) \<le> f (X s ! i)"
    using assms(4) l by (simp add: bests_ok_def)
  show ?thesis
  proof (cases "x_swarm s")
    case (In_X k)
    have k: "k < n" using assms(2) In_X by (simp add: swarm_ok_def)
    show ?thesis
    proof (cases "k = i")
      case True
      have mid: "swarm_best ?mid = X s' ! i" using In_X True by (simp add: swarm_best_def)
      have prev: "swarm_best s = X s ! i" using In_X True by (simp add: swarm_best_def)
      show ?thesis
      proof (cases "f (X_best s' ! i) < f (swarm_best ?mid)")
        case True
        then have "swarm_best s' = X_best s' ! i" using r by (simp add: swarm_best_def)
        then show ?thesis using bi old prev by simp
      next
        case False
        then have "x_swarm s' = x_swarm s" using r by simp
        then have "swarm_best s' = X s' ! i" using In_X \<open>k = i\<close> by (simp add: swarm_best_def)
        moreover have "f (X s' ! i) = f (X_best s' ! i)" using False mid after by simp
        ultimately show ?thesis using bi old prev by simp
      qed
    next
      case False
      have mid: "swarm_best ?mid = swarm_best s"
        using In_X False x by (simp add: swarm_best_def)
      show ?thesis
      proof (cases "f (X_best s' ! i) < f (swarm_best ?mid)")
        case True
        then have "swarm_best s' = X_best s' ! i" using r by (simp add: swarm_best_def)
        then show ?thesis using True mid by simp
      next
        case False
        then have "x_swarm s' = x_swarm s" using r by simp
        then have "swarm_best s' = swarm_best ?mid"
          by (simp add: swarm_best_def split: row_ref.splits)
        then show ?thesis using mid by simp
      qed
    qed
  next
    case (In_X_best k)
    have k: "k < n" using assms(2) In_X_best by (simp add: swarm_ok_def)
    have mid: "swarm_best ?mid = X_best s' ! k" using In_X_best by (simp add: swarm_best_def)
    have prev: "swarm_best s = X_best s ! k" using In_X_best by (simp add: swarm_best_def)
    have le: "f (X_best s' ! k) \<le> f (X_best s ! k)"
      using pso_update_best_slot(1)[OF assms(1,2,3) k] .
    show ?thesis
    proof (cases "f (X_best s' ! i) < f (swarm_best ?mid)")
      case True
      then have "swarm_best s' = X_best s' ! i" using r by (simp add: swarm_best_def)
      then show ?thesis using True mid le prev by simp
    next
      case False
      then have "x_swarm s' = x_swarm s" using r by simp
      then have "swarm_best s' = swarm_best ?mid"
        by (simp add: swarm_best_def split: row_ref.splits)
      then show ?thesis using mid le prev by simp
    qed
  qed
qed

lemma swarm_best_in_box:
  assumes "swarm_ok n s" "swarm_in_box lower upper s"
  shows "in_box lower upper (swarm_best s)"
  using assms
  by (cases "x_swarm s") (auto simp: swarm_ok_def swarm_in_box_def swarm_best_def)

lemma pso_update_in_box:
  assumes "pso_update R f lower upper \<omega> \<phi>1 \<phi>2 i s w = (s', w')" "swarm_ok n s" "i < n"
    "domain_ok lower upper" "swarm_in_box lower upper s"
  shows "swarm_in_box lower upper s'"
proof -
  have l: "i < length (X s)" "length (V s) = length (X s)" "length (X_best s) = length (X s)"
    using assms(2,3) by (simp_all add: swarm_ok_def)
  obtain r1 r2 w1 w2 v x' where
    r1: "uniform_row R (replicate (length lower) (0, \<phi>1)) w = (r1, w1)"
    and r2: "uniform_row R (replicate (length lower) (0, \<phi>2)) w1 = (r2, w2)"
    and v: "v = vadd (vadd (vscale (V s ! i) \<omega>) (vmul r1 (vsub (X_best s ! i) (X s ! i))))
              (vmul r2 (vsub (swarm_best s) (X s ! i)))"
    and x': "x' = np_clip (vadd (X s ! i) v) lower upper"
    and vs: "V s' = (V s)[i := v]" and xs: "X s' = (X s)[i := x']"
    and bs: "X_best s' = (if f x' < f (X_best s ! i) then (X_best s)[i := x'] else X_best s)"
    by (rule pso_update_fields[OF assms(1) l]) blast
  let ?d = "length lower"
  have lx: "length (X s ! i) = ?d" and lb: "length (X_best s ! i) = ?d"
    and lv: "length (V s ! i) = ?d"
    using assms(5) l by (auto simp: swarm_in_box_def intro: in_box_length)
  have ls: "length (swarm_best s) = ?d"
    using swarm_best_in_box[OF assms(2,5)] by (rule in_box_length)
  have l1: "length r1 = ?d" using uniform_row_length[OF r1] by simp
  have l2: "length r2 = ?d" using uniform_row_length[OF r2] by simp
  have lvv: "length v = ?d"
    unfolding v by (simp add: vadd_def vscale_def vmul_def vsub_def lx lb lv ls l1 l2)
  have "length (vadd (X s ! i) v) = ?d" by (simp add: vadd_def lx lvv)
  then have bx: "in_box lower upper x'"
    unfolding x' by (rule np_clip_in_box[OF assms(4)])
  have a: "\<forall>x\<in>set (X s'). in_box lower upper x"
    using assms(5) bx unfolding xs swarm_in_box_def
    by (auto dest: set_update_subset_insert[THEN subsetD])
  have b: "\<forall>x\<in>set (X_best s'). in_box lower upper x"
    using assms(5) bx unfolding bs swarm_in_box_def
    by (auto dest: set_update_subset_insert[THEN subsetD])
  have c: "\<forall>u\<in>set (V s'). length u = ?d"
    using assms(5) lvv unfolding vs swarm_in_box_def
    by (auto dest: set_update_subset_insert[THEN subsetD])
  show ?thesis using a b c by (simp add: swarm_in_box_def)
qed

subsection \<open>Particle swarm: passes\<close>

lemma pso_pass_append:
  "pso_pass R f lower upper \<omega> \<phi>1 \<phi>2 (js @ ks) s w =
     (case pso_pass R f lower upper \<omega> \<phi>1 \<phi>2 js s w of (s1, w1) \<Rightarrow>
        pso_pass R f lower upper \<omega> \<phi>1 \<phi>2 ks s1 w1)"
  by (induction js arbitrary: s w) (auto split: prod.splits)

lemma pso_steps_add:
  "pso_steps R f lower upper n \<omega> \<phi>1 \<phi>2 (k + m) s w =
     (case pso_steps R f lower upper n \<omega> \<phi>1 \<phi>2 k s w of (s1, w1) \<Rightarrow>
        pso_steps R f lower upper n \<omega> \<phi>1 \<phi>2 m s1 w1)"
  by (induction k arbitrary: s w) (auto split: prod.splits)

lemma pso_steps_as_pass:
  "pso_steps R f lower upper n \<omega> \<phi>1 \<phi>2 k s w =
     pso_pass R f lower upper \<omega> \<phi>1 \<phi>2 (concat (replicate k [0..<n])) s w"
  by (induction k arbitrary: s w) (auto simp: pso_pass_append split: prod.splits)

lemma pso_pass_invariants:
  "pso_pass R f lower upper \<omega> \<phi>1 \<phi>2 js s w = (s', w') \<Longrightarrow> \<forall>j\<in>set js. j < n
     \<Longrightarrow> swarm_ok n s \<Longrightarrow> bests_ok f s
     \<Longrightarrow> swarm_ok n s' \<and> bests_ok f s' \<and> f (swarm_best s') \<le> f (swarm_best s) \<and>
         (\<forall>k<n. f (X_best s' ! k) \<le> f (X_best s ! k))"
proof (induction js arbitrary: s w)
  case Nil
  then show ?case by simp
next
  case (Cons j js)
  obtain s1 w1 where u: "pso_update R f lower upper \<omega> \<phi>1 \<phi>2 j s w = (s1, w1)"
    by (cases "pso_update R f lower upper \<omega> \<phi>1 \<phi>2 j s w")
  have r: "pso_pass R f lower upper \<omega> \<phi>1 \<phi>2 js s1 w1 = (s', w')"
    using Cons.prems(1) u by simp
  have j: "j < n" and js: "\<forall>j\<in>set js. j < n" using Cons.prems(2) by simp_all
  have ok1: "swarm_ok n s1" using pso_update_swarm_ok[OF u Cons.prems(3) j] .
  have b1: "bests_ok f s1" using pso_update_bests_ok[OF u Cons.prems(3) j Cons.prems(4)] .
  have g1: "f (swarm_best s1) \<le> f (swarm_best s)"
    using pso_update_swarm_best[OF u Cons.prems(3) j Cons.prems(4)] .
  have p1: "\<forall>k<n. f (X_best s1 ! k) \<le> f (X_best s ! k)"
    using pso_update_best_slot(1)[OF u Cons.prems(3) j] by simp
  have ih: "swarm_ok n s' \<and> bests_ok f s' \<and> f (swarm_best s') \<le> f (swarm_best s1) \<and>
         (\<forall>k<n. f (X_best s' ! k) \<le> f (X_best s1 ! k))"
    using Cons.IH[OF r js ok1 b1] .
  have "\<forall>k<n. f (X_best s' ! k) \<le> f (X_best s ! k)"
    using ih p1 by (meson order_trans)
  then show ?case using ih g1 by simp
qed

lemma pso_pass_in_box:
  "pso_pass R f lower upper \<omega> \<phi>1 \<phi>2 js s w = (s', w') \<Longrightarrow> \<forall>j\<in>set js. j < n
     \<Longrightarrow> swarm_ok n s \<Longrightarrow> domain_ok lower upper \<Longrightarrow> swarm_in_box lower upper s
     \<Longrightarrow> swarm_ok n s' \<and> swarm_in_box lower upper s'"
proof (induction js arbitrary: s w)
  case Nil
  then show ?case by simp
next
  case (Cons j js)
  obtain s1 w1 where u: "pso_update R f lower upper \<omega> \<phi>1 \<phi>2 j s w = (s1, w1)"
    by (cases "pso_update R f lower upper \<omega> \<phi>1 \<phi>2 j s w")
  have r: "pso_pass R f lower upper \<omega> \<phi>1 \<phi>2 js s1 w1 = (s', w')"
    using Cons.prems(1) u by simp
  have j: "j < n" and js: "\<forall>j\<in>set js. j < n" using Cons.prems(2) by simp_all
  have ok1: "swarm_ok n s1" using pso_update_swarm_ok[OF u Cons.prems(3) j] .
  have b1: "swarm_in_box lower upper s1"
    using pso_update_in_box[OF u Cons.prems(3) j Cons.prems(4,5)] .
  show ?case using Cons.IH[OF r js ok1 Cons.prems(4) b1] .
qed

lemma pso_steps_invariants:
  assumes "pso_steps R f lower upper n \<omega> \<phi>1 \<phi>2 k s w = (s', w')" "swarm_ok n s" "bests_ok f s"
  shows "swarm_ok n s' \<and> bests_ok f s' \<and> f (swarm_best s') \<le> f (swarm_best s) \<and>
         (\<forall>i<n. f (X_best s' ! i) \<le> f (X_best s ! i))"
proof -
  have "\<forall>j\<in>set (concat (replicate k [0..<n])). j < n" by auto
  then show ?thesis
    using pso_pass_invariants[OF assms(1)[unfolded pso_steps_as_pass] _ assms(2,3)] by blast
qed

lemma pso_steps_in_box:
  assumes "pso_steps R f lower upper n \<omega> \<phi>1 \<phi>2 k s w = (s', w')" "swarm_ok n s"
    "domain_ok lower upper" "swarm_in_box lower upper s"
  shows "swarm_ok n s' \<and> swarm_in_box lower upper s'"
proof -
  have "\<forall>j\<in>set (concat (replicate k [0..<n])). j < n" by auto
  then show ?thesis
    using pso_pass_in_box[OF assms(1)[unfolded pso_steps_as_pass] _ assms(2,3,4)] by blast
qed

subsection \<open>Particle swarm: the initial swarm\<close>

lemma pso_init_cases:
  assumes "pso_init R F lower upper n w = (Inr (s0, ub), w0)"
  obtains X0 w1 U w2 k where
    "np_random_uniform R (items lower) (items upper) n (length (items lower)) w = (Inr X0, w1)"
    "\<not> (is_PyList lower \<and> is_PyList upper)"
    "np_broadcast (length (items lower)) (reals upper) = Inr ub"
    "uniform_rows R (replicate (length (items lower)) (- 1, 1)) (nat n) w1 = (U, w2)"
    "np_argmin (F X0) = Inr k" "k < length X0"
    "s0 = \<lparr>X = X0, V = map (\<lambda>u. vmul u (vsub ub (reals lower))) U, X_best = X0, x_swarm = In_X k\<rparr>"
    "w0 = w2\<lparr>evals := evals w2 + 1\<rparr>"
proof -
  let ?d = "length (items lower)"
  obtain X0 w1 where a: "np_random_uniform R (items lower) (items upper) n ?d w = (Inr X0, w1)"
    using assms by (auto simp: pso_init_def Let_def split: prod.splits sum.splits)
  obtain U w2 where c: "uniform_rows R (replicate ?d (- 1, 1)) (nat n) w1 = (U, w2)"
    by (cases "uniform_rows R (replicate ?d (- 1, 1)) (nat n) w1")
  have t: "\<not> (is_PyList lower \<and> is_PyList upper)"
    using assms a c by (auto simp: pso_init_def Let_def split: if_splits)
  obtain ub' where b: "np_broadcast ?d (reals upper) = Inr ub'"
    using assms a c t
    by (cases "np_broadcast ?d (reals upper)") (auto simp: pso_init_def Let_def split: if_splits)
  obtain k where d: "np_argmin (F X0) = Inr k"
    using assms a b c t
    by (cases "np_argmin (F X0)") (auto simp: pso_init_def Let_def call_rows_def split: if_splits)
  have kl: "k < length X0"
    using assms a b c d t by (auto simp: pso_init_def Let_def call_rows_def split: if_splits)
  have e: "s0 = \<lparr>X = X0, V = map (\<lambda>u. vmul u (vsub ub' (reals lower))) U, X_best = X0,
                 x_swarm = In_X k\<rparr>"
    and f: "ub = ub'" and g: "w0 = w2\<lparr>evals := evals w2 + 1\<rparr>"
    using assms a b c d t kl by (auto simp: pso_init_def Let_def call_rows_def split: if_splits)
  show ?thesis using that[OF a t b[folded f] c d kl e[folded f] g] .
qed


lemma pso_init_swarm:
  assumes "pso_init R F lower upper n w = (Inr (s0, ub), w0)"
  shows "swarm_ok (nat n) s0" "bests_ok f s0" "X_best s0 = X s0" "0 < n"
    and "\<exists>k<length (X s0). x_swarm s0 = In_X k \<and> swarm_best s0 = X s0 ! k \<and>
           np_argmin (F (X s0)) = Inr k"
    and "\<exists>w1. np_random_uniform R (items lower) (items upper) n (length (items lower)) w
                = (Inr (X s0), w1)"
    and "evals w0 = evals w + 1"
proof -
  obtain X0 w1 U w2 k where
    a: "np_random_uniform R (items lower) (items upper) n (length (items lower)) w = (Inr X0, w1)"
    and c: "uniform_rows R (replicate (length (items lower)) (- 1, 1)) (nat n) w1 = (U, w2)"
    and d: "np_argmin (F X0) = Inr k" and k: "k < length X0"
    and e: "s0 = \<lparr>X = X0, V = map (\<lambda>u. vmul u (vsub ub (reals lower))) U, X_best = X0,
                  x_swarm = In_X k\<rparr>"
    and g: "w0 = w2\<lparr>evals := evals w2 + 1\<rparr>"
    using assms by (rule pso_init_cases)
  have lx: "length X0 = nat n" and e1: "evals w1 = evals w" and n0: "0 \<le> n"
    using a by (auto elim: np_random_uniform_cases)
  have lu: "length U = nat n" using uniform_rows_length[OF c] .
  show "swarm_ok (nat n) s0" using e lx lu k by (simp add: swarm_ok_def)
  show "bests_ok f s0" using e by (simp add: bests_ok_def)
  show "X_best s0 = X s0" using e by simp
  show "0 < n" using k lx n0 by (cases "n = 0") auto
  show "\<exists>k<length (X s0). x_swarm s0 = In_X k \<and> swarm_best s0 = X s0 ! k \<and>
           np_argmin (F (X s0)) = Inr k"
    using e k d by (intro exI[of _ k]) (simp add: swarm_best_def)
  show "\<exists>w1. np_random_uniform R (items lower) (items upper) n (length (items lower)) w
                = (Inr (X s0), w1)"
    using a e by simp
  show "evals w0 = evals w + 1"
    using g e1 uniform_rows_evals[OF c] by simp
qed

lemma uniform_rows_row_length:
  "uniform_rows R bs k w = (rs, w1) \<Longrightarrow> \<forall>r\<in>set rs. length r = length bs"
proof (induction k arbitrary: w rs w1)
  case 0
  then show ?case by simp
next
  case (Suc k)
  obtain r wa where a: "uniform_row R bs w = (r, wa)" by (cases "uniform_row R bs w")
  obtain ys wb where b: "uniform_rows R bs k wa = (ys, wb)" by (cases "uniform_rows R bs k wa")
  have rs: "rs = r # ys" using Suc.prems a b by simp
  show ?case using rs uniform_row_length[OF a] Suc.IH[OF b] by simp
qed

lemma search_domain_length:
  "search_domain lower upper \<Longrightarrow> length (items upper) = length (items lower)"
  using domain_ok_length[of "reals lower" "reals upper"]
  by (simp add: search_domain_def reals_length)

lemma pso_init_in_box:
  assumes "pso_init R F lower upper n w = (Inr (s0, ub), w0)" "uniform_ok R"
    "search_domain lower upper"
  shows "ub = reals upper" "swarm_in_box (reals lower) (reals upper) s0"
proof -
  obtain X0 w1 U w2 k where
    a: "np_random_uniform R (items lower) (items upper) n (length (items lower)) w = (Inr X0, w1)"
    and b: "np_broadcast (length (items lower)) (reals upper) = Inr ub"
    and c: "uniform_rows R (replicate (length (items lower)) (- 1, 1)) (nat n) w1 = (U, w2)"
    and e: "s0 = \<lparr>X = X0, V = map (\<lambda>u. vmul u (vsub ub (reals lower))) U, X_best = X0,
                  x_swarm = In_X k\<rparr>"
    using assms(1) by (rule pso_init_cases)
  have dom: "domain_ok (reals lower) (reals upper)" using assms(3) by (simp add: search_domain_def)
  have len: "length (items upper) = length (items lower)" using search_domain_length[OF assms(3)] .
  show ub: "ub = reals upper" using b len by (simp add: np_broadcast_def reals_length)
  have r: "uniform_rows R (zip (reals lower) (reals upper)) (nat n) w = (X0, w1)"
    using a ub b by (auto elim: np_random_uniform_cases simp: reals_def)
  have bx: "\<forall>x\<in>set X0. in_box (reals lower) (reals upper) x"
    using uniform_rows_in_box[OF assms(2) dom r] .
  have "\<forall>u\<in>set U. length u = length (items lower)"
    using uniform_rows_row_length[OF c] by simp
  then have "\<forall>v\<in>set (map (\<lambda>u. vmul u (vsub ub (reals lower))) U).
               length v = length (reals lower)"
    using ub len by (simp add: vmul_def vsub_def reals_length)
  then show "swarm_in_box (reals lower) (reals upper) s0"
    using e bx by (simp add: swarm_in_box_def)
qed

subsection \<open>The deterministic sampler keeps the library's contracts\<close>

lemma counter_sampler_uniform_ok: "uniform_ok counter_sampler"
proof -
  have "lo \<le> lo + (hi - lo) * (real (g mod 4) / 4) \<and> lo + (hi - lo) * (real (g mod 4) / 4) \<le> hi"
    if le: "lo \<le> hi" for lo hi :: real and g :: nat
  proof -
    have q0: "0 \<le> real (g mod 4) / 4" by simp
    have "g mod 4 < 4" by simp
    then have q1: "real (g mod 4) / 4 \<le> 1" by simp
    have d: "0 \<le> hi - lo" using le by simp
    have a: "0 \<le> (hi - lo) * (real (g mod 4) / 4)" using d q0 by (rule mult_nonneg_nonneg)
    have b: "(hi - lo) * (real (g mod 4) / 4) \<le> (hi - lo) * 1"
      using q1 d by (rule mult_left_mono)
    show ?thesis using a b by simp
  qed
  then show ?thesis by (simp add: uniform_ok_def counter_sampler_def)
qed

lemma counter_sampler_choice_ok: "choice_ok counter_sampler"
  by (auto simp: choice_ok_def counter_sampler_def dest: in_set_takeD)

lemma counter_sampler_rand_ok: "rand_ok counter_sampler"
proof -
  have "real (g mod 4) / 4 < 1" for g :: nat
  proof -
    have "g mod 4 < 4" by simp
    then have "real (g mod 4) < 4" by linarith
    then show ?thesis by simp
  qed
  then show ?thesis by (simp add: rand_ok_def counter_sampler_def)
qed


lemma np_where_all_false:
  assumes "length c = length y" "length x = length y" "\<forall>p\<in>set c. \<not> p"
  shows "np_where c x y = y"
proof (rule nth_equalityI)
  show "length (np_where c x y) = length y" using assms(1,2) by (simp add: np_where_length)
  fix i assume "i < length (np_where c x y)"
  then have i: "i < length y" using assms(1,2) by (simp add: np_where_length)
  then have "c ! i \<in> set c" using assms(1) by simp
  then have "\<not> c ! i" using assms(3) by blast
  then show "np_where c x y ! i = y ! i" using i assms(1,2) by (simp add: np_where_nth)
qed

lemma np_where_all_true:
  assumes "length c = length x" "length y = length x" "\<forall>p\<in>set c. p"
  shows "np_where c x y = x"
proof (rule nth_equalityI)
  show "length (np_where c x y) = length x" using assms(1,2) by (simp add: np_where_length)
  fix i assume "i < length (np_where c x y)"
  then have i: "i < length x" using assms(1,2) by (simp add: np_where_length)
  then have "c ! i \<in> set c" using assms(1) by simp
  then have "c ! i" using assms(3) by blast
  then show "np_where c x y ! i = x ! i" using i assms(1,2) by (simp add: np_where_nth)
qed

lemma minimize_de_cases:
  assumes "minimize_de R f F (lower, upper) steps n mutation crossover w = (Inr x, w')"
  obtains population0 w0 ub population w1 where
    "np_random_uniform R (items lower) (items upper) n (length (items lower)) w
       = (Inr population0, w0)"
    "np_broadcast (length (items lower)) (reals upper) = Inr ub"
    "de_steps R f (reals lower) ub (nat n) mutation crossover (nat steps) population0 w0
       = (Inr population, w1)"
    "de_best F population w1 = (Inr x, w')"
  using assms
  by (auto simp: minimize_de_def Let_def split: prod.splits sum.splits)

lemma de_best_Inr:
  assumes "de_best F population w = (Inr x, w')"
  obtains k where "np_argmin (F population) = Inr k" "k < length population"
    "x = population ! k" "w' = w\<lparr>evals := evals w + 1\<rparr>"
  using assms
  by (cases "np_argmin (F population)") (auto simp: de_best_def call_rows_def split: if_splits)




section \<open>Facts about whole runs\<close>

lemma de_update_changed:
  assumes "de_update R f lower upper n mutation crossover j population w = (Inr population', w')"
    "k < length population" "population' ! k \<noteq> population ! k"
  shows "k = j \<and> f (population' ! k) < f (population ! k) \<and>
         fst (de_trial R lower upper n mutation crossover j population w) = Inr (population' ! k)"
proof -
  obtain t w1 where tr: "de_trial R lower upper n mutation crossover j population w = (Inr t, w1)"
    and p: "population' = (if f t < f (population ! j) then population[j := t] else population)"
    using assms(1) by (rule de_update_cases)
  have kj: "k = j" using p assms(2,3) by (cases "k = j") (auto split: if_splits)
  have lt: "f t < f (population ! j)" using p assms(3) by (auto split: if_splits)
  have "population' ! k = t" using p lt kj assms(2) by simp
  then show ?thesis using kj lt tr by simp
qed

lemma pso_pass_best_slot:
  "pso_pass R f lower upper \<omega> \<phi>1 \<phi>2 js s w = (s', w') \<Longrightarrow> \<forall>j\<in>set js. j < n
     \<Longrightarrow> swarm_ok n s \<Longrightarrow> k < n \<Longrightarrow> f (X_best s' ! k) \<le> f (X_best s ! k)"
proof (induction js arbitrary: s w)
  case Nil
  then show ?case by simp
next
  case (Cons j js)
  obtain s1 w1 where u: "pso_update R f lower upper \<omega> \<phi>1 \<phi>2 j s w = (s1, w1)"
    by (cases "pso_update R f lower upper \<omega> \<phi>1 \<phi>2 j s w")
  have r: "pso_pass R f lower upper \<omega> \<phi>1 \<phi>2 js s1 w1 = (s', w')"
    using Cons.prems(1) u by simp
  have j: "j < n" and js: "\<forall>j\<in>set js. j < n" using Cons.prems(2) by simp_all
  have ok1: "swarm_ok n s1" using pso_update_swarm_ok[OF u Cons.prems(3) j] .
  have "f (X_best s1 ! k) \<le> f (X_best s ! k)"
    using pso_update_best_slot(1)[OF u Cons.prems(3) j Cons.prems(4)] .
  moreover have "f (X_best s' ! k) \<le> f (X_best s1 ! k)"
    using Cons.IH[OF r js ok1 Cons.prems(4)] .
  ultimately show ?case by simp
qed

lemma pso_steps_best_slot:
  assumes "pso_steps R f lower upper n \<omega> \<phi>1 \<phi>2 m s w = (s', w')" "swarm_ok n s" "k < n"
  shows "f (X_best s' ! k) \<le> f (X_best s ! k)"
proof -
  have "\<forall>j\<in>set (concat (replicate m [0..<n])). j < n" by auto
  then show ?thesis
    using pso_pass_best_slot[OF assms(1)[unfolded pso_steps_as_pass] _ assms(2,3)] by blast
qed

lemma minimize_pso_run:
  assumes "pso_init R F lower upper n w = (Inr (s0, ub), w0)"
  shows "minimize_pso R f F (lower, upper) steps n \<omega> \<phi>1 \<phi>2 w =
     (Inr (swarm_best (fst (pso_steps R f (reals lower) ub (nat n) \<omega> \<phi>1 \<phi>2 (nat steps) s0 w0))),
      snd (pso_steps R f (reals lower) ub (nat n) \<omega> \<phi>1 \<phi>2 (nat steps) s0 w0))"
  using assms by (simp add: minimize_pso_def split: prod.splits)


lemma minimize_pso_cases:
  assumes "minimize_pso R f F (lower, upper) steps n \<omega> \<phi>1 \<phi>2 w = (Inr y, w')"
  obtains s0 ub w0 s where "pso_init R F lower upper n w = (Inr (s0, ub), w0)"
    "pso_steps R f (reals lower) ub (nat n) \<omega> \<phi>1 \<phi>2 (nat steps) s0 w0 = (s, w')"
    "y = swarm_best s"
  using assms by (auto simp: minimize_pso_def split: prod.splits sum.splits)

lemma initial_population_in_box:
  assumes "uniform_ok R" "search_domain lower upper"
    "np_random_uniform R (items lower) (items upper) n (length (items lower)) w
       = (Inr population0, w0)"
  shows "\<forall>x\<in>set population0. in_box (reals lower) (reals upper) x"
    "length population0 = nat n"
proof -
  obtain ub where ub: "np_broadcast (length (items lower)) (map num (items upper)) = Inr ub"
    and r: "uniform_rows R (zip (map num (items lower)) ub) (nat n) w = (population0, w0)"
    and l: "length population0 = nat n"
    using assms(3) by (rule np_random_uniform_cases)
  have dom: "domain_ok (reals lower) (reals upper)" using assms(2) by (simp add: search_domain_def)
  have "ub = reals upper"
    using ub search_domain_length[OF assms(2)] by (simp add: np_broadcast_def reals_def)
  then show "\<forall>x\<in>set population0. in_box (reals lower) (reals upper) x"
    using uniform_rows_in_box[OF assms(1) dom] r by (simp add: reals_def)
  show "length population0 = nat n" using l .
qed

lemma run_prefix_targets: "\<forall>j\<in>set (take q (concat (replicate k [0..<n]))). j < n"
proof
  fix j assume "j \<in> set (take q (concat (replicate k [0..<n])))"
  then have "j \<in> set (concat (replicate k [0..<n]))" by (rule in_set_takeD)
  then show "j < n" by (auto split: if_splits)
qed

lemma minimize_de_in_box:
  assumes "uniform_ok R" "search_domain lower upper"
    "minimize_de R f F (lower, upper) steps n mutation crossover w = (Inr x, w')"
  shows "in_box (reals lower) (reals upper) x"
proof -
  obtain population0 w0 ub p wb where
    i: "np_random_uniform R (items lower) (items upper) n (length (items lower)) w
          = (Inr population0, w0)"
    and bc: "np_broadcast (length (items lower)) (reals upper) = Inr ub"
    and s: "de_steps R f (reals lower) ub (nat n) mutation crossover (nat steps) population0 w0
              = (Inr p, wb)"
    and r: "de_best F p wb = (Inr x, w')"
    using assms(3) by (rule minimize_de_cases)
  have dom: "domain_ok (reals lower) (reals upper)" using assms(2) by (simp add: search_domain_def)
  have ub: "ub = reals upper"
    using bc search_domain_length[OF assms(2)] by (simp add: np_broadcast_def reals_length)
  have "\<forall>x\<in>set p. in_box (reals lower) (reals upper) x"
    using de_steps_in_box[OF dom initial_population_in_box(1)[OF assms(1,2) i]] s ub by blast
  moreover obtain k where "k < length p" "x = p ! k" using r by (rule de_best_Inr)
  ultimately show ?thesis by simp
qed

lemma pso_prefix_in_box:
  assumes "uniform_ok R" "search_domain lower upper"
    "pso_init R F lower upper n w = (Inr (s0, ub), w0)"
    "pso_pass R f (reals lower) (reals upper) \<omega> \<phi>1 \<phi>2 js s0 w0 = (s, w1)"
    "\<forall>j\<in>set js. j < nat n"
  shows "swarm_ok (nat n) s \<and> swarm_in_box (reals lower) (reals upper) s"
proof -
  have dom: "domain_ok (reals lower) (reals upper)" using assms(2) by (simp add: search_domain_def)
  show ?thesis
    using pso_pass_in_box[OF assms(4,5) pso_init_swarm(1)[OF assms(3)] dom
        pso_init_in_box(2)[OF assms(3,1,2)]] .
qed

lemma minimize_pso_in_box:
  assumes "uniform_ok R" "search_domain lower upper"
    "minimize_pso R f F (lower, upper) steps n \<omega> \<phi>1 \<phi>2 w = (Inr y, w')"
  shows "in_box (reals lower) (reals upper) y"
proof -
  obtain s0 ub w0 s where i: "pso_init R F lower upper n w = (Inr (s0, ub), w0)"
    and r: "pso_steps R f (reals lower) ub (nat n) \<omega> \<phi>1 \<phi>2 (nat steps) s0 w0 = (s, w')"
    and y: "y = swarm_best s"
    using assms(3) by (rule minimize_pso_cases)
  have dom: "domain_ok (reals lower) (reals upper)" using assms(2) by (simp add: search_domain_def)
  have ub: "ub = reals upper" using pso_init_in_box(1)[OF i assms(1,2)] .
  have "swarm_ok (nat n) s \<and> swarm_in_box (reals lower) (reals upper) s"
    using pso_steps_in_box[OF r[unfolded ub] pso_init_swarm(1)[OF i] dom
        pso_init_in_box(2)[OF i assms(1,2)]] .
  then show ?thesis unfolding y using swarm_best_in_box by blast
qed









section \<open>Running the model on numerals\<close>

lemma upt_4: "[0..<4] = [0, 1, 2, 3]"
  by (simp add: upt_conv_Cons)

lemma upt_3: "[0..<3] = [0, 1, 2]"
  by (simp add: upt_conv_Cons)

lemma uniform_rows_numeral:
  "uniform_rows R bs (numeral k) w =
     (case uniform_row R bs w of (r, w1) \<Rightarrow>
        (case uniform_rows R bs (pred_numeral k) w1 of (rs, w2) \<Rightarrow> (r # rs, w2)))"
  by (simp add: numeral_eq_Suc)

lemma de_steps_numeral:
  "de_steps R f lower upper n mutation crossover (numeral k) population w =
     (case de_pass R f lower upper n mutation crossover [0..<length population] population w of
        (Inl e, w1) \<Rightarrow> (Inl e, w1)
      | (Inr population', w1) \<Rightarrow>
          de_steps R f lower upper n mutation crossover (pred_numeral k) population' w1)"
  by (simp add: numeral_eq_Suc)

lemma pso_steps_numeral:
  "pso_steps R f lower upper n \<omega> \<phi>1 \<phi>2 (numeral k) s w =
     (case pso_pass R f lower upper \<omega> \<phi>1 \<phi>2 [0..<n] s w of (s1, w1) \<Rightarrow>
        pso_steps R f lower upper n \<omega> \<phi>1 \<phi>2 (pred_numeral k) s1 w1)"
  by (simp add: numeral_eq_Suc)

lemma replicate_numeral: "replicate (numeral k) x = x # replicate (pred_numeral k) x"
  by (simp add: numeral_eq_Suc)

lemmas run_simps =
  uniform_rows_numeral de_steps_numeral pso_steps_numeral replicate_numeral
  upt_4 upt_3 power2_eq_square
  draw_uniform_def draw_rand_def draw_choice_def counter_sampler_def world0_def
  call_def call_rows_def some_function_def
  some_function_rows_def square_of_first_def square_of_first_rows_def
  reals_def finite_seq_def
  np_broadcast_def np_broadcast2_def np_random_uniform_def np_clip_def np_where_def np_argmin_def
  vadd_def vsub_def vmul_def vscale_def

lemmas de_simps = de_trial_def de_update_def de_best_def minimize_de_def

lemmas pso_simps = swarm_best_def pso_update_def pso_init_def minimize_pso_def

section \<open>Claims about differential evolution\<close>

text \<open>
  C6: for a population of \<open>n \<ge> 4\<close> rows and a target \<open>j\<close>, the code asks the library for
  three of the candidates with \<^verbatim>\<open>replace=False\<close> and no weights, which is the library's
  uniform choice without replacement; the candidates are the indices of the population
  other than \<open>j\<close>, each listed once. Under the library's contract for sampling without
  replacement the three are distinct, in range and different from \<open>j\<close>.
  The mutant \<open>x1 + (x2 - x3) * mutation\<close> is clamped to the bounds coordinate by
  coordinate. Coordinate \<open>i\<close> of the trial is decided by the \<open>i\<close>-th of \<open>d\<close> successive
  draws of \<^verbatim>\<open>np.random.rand\<close>, taken after the choice: the clamped mutant's coordinate
  where that draw is less than \<open>crossover\<close>, the target's otherwise. Under the library's
  contract each draw lies in \<open>[0, 1)\<close>, so a \<open>crossover\<close> of at least \<open>1\<close> takes the whole
  clamped mutant and a \<open>crossover\<close> of at most \<open>0\<close> none of it. When no draw is less than
  \<open>crossover\<close> the trial is the target: no mutated coordinate is forced into it. That
  the library's choice is uniform and its draws independent is the library's own
  behaviour, to which the code adds nothing: it passes every other index once, no
  weights, and reads each draw once.
\<close>

theorem de_trial_mutation_crossover:
  assumes "choice_ok R" "4 \<le> n" "j < n" "length population = n"
  shows "\<exists>a b c g1 t.
      distinct (remove1 j [0..<n]) \<and> set (remove1 j [0..<n]) = {i. i < n \<and> i \<noteq> j} \<and>
      np_choice R (remove1 j [0..<n]) 3 False None (gen w) = ([a, b, c], g1) \<and>
      distinct [a, b, c] \<and> a < n \<and> b < n \<and> c < n \<and> a \<noteq> j \<and> b \<noteq> j \<and> c \<noteq> j \<and>
      de_trial R lower upper n mutation crossover j population w
        = (Inr t, w\<lparr>gen := rand_state R (length lower) g1\<rparr>) \<and>
      t = np_where (map (\<lambda>i. rand_draw R g1 i < crossover) [0..<length lower])
            (np_clip (vadd (population ! a)
                        (vscale (vsub (population ! b) (population ! c)) mutation))
               lower upper)
            (population ! j) \<and>
      (rand_ok R \<longrightarrow> (\<forall>i<length lower. 0 \<le> rand_draw R g1 i \<and> rand_draw R g1 i < 1)) \<and>
      ((\<forall>x\<in>set population. length x = length lower) \<and> length upper = length lower \<longrightarrow>
         (\<forall>i<length lower.
            t ! i = (if rand_draw R g1 i < crossover
                     then min (max (population ! a ! i
                                     + (population ! b ! i - population ! c ! i) * mutation)
                                (lower ! i)) (upper ! i)
                     else population ! j ! i)) \<and>
         ((\<forall>i<length lower. \<not> rand_draw R g1 i < crossover) \<longrightarrow> t = population ! j) \<and>
         (rand_ok R \<and> crossover \<le> 0 \<longrightarrow> t = population ! j) \<and>
         (rand_ok R \<and> 1 \<le> crossover \<longrightarrow>
            t = np_clip (vadd (population ! a)
                           (vscale (vsub (population ! b) (population ! c)) mutation))
                  lower upper))"
proof -
  obtain a b c g1 where
    ch: "np_choice R (remove1 j [0..<n]) 3 False None (gen w) = ([a, b, c], g1)"
    and p: "distinct [a, b, c]" "a < n" "b < n" "c < n" "a \<noteq> j" "b \<noteq> j" "c \<noteq> j"
    and tr: "de_trial R lower upper n mutation crossover j population w =
       (Inr (np_where (map (\<lambda>i. rand_draw R g1 i < crossover) [0..<length lower])
               (np_clip (vadd (population ! a)
                           (vscale (vsub (population ! b) (population ! c)) mutation))
                  lower upper)
               (population ! j)), w\<lparr>gen := rand_state R (length lower) g1\<rparr>)"
    using de_trial_ok[OF assms] by metis
  let ?d = "length lower"
  let ?m = "vadd (population ! a) (vscale (vsub (population ! b) (population ! c)) mutation)"
  let ?c = "map (\<lambda>i. rand_draw R g1 i < crossover) [0..<?d]"
  let ?t = "np_where ?c (np_clip ?m lower upper) (population ! j)"
  have rng: "rand_ok R \<longrightarrow> (\<forall>i<?d. 0 \<le> rand_draw R g1 i \<and> rand_draw R g1 i < 1)"
    by (intro impI allI) (simp add: rand_draw_between)
  have shaped: "(\<forall>i<?d. ?t ! i = (if rand_draw R g1 i < crossover
                     then min (max (population ! a ! i
                                     + (population ! b ! i - population ! c ! i) * mutation)
                                (lower ! i)) (upper ! i)
                     else population ! j ! i)) \<and>
         ((\<forall>i<?d. \<not> rand_draw R g1 i < crossover) \<longrightarrow> ?t = population ! j) \<and>
         (rand_ok R \<and> crossover \<le> 0 \<longrightarrow> ?t = population ! j) \<and>
         (rand_ok R \<and> 1 \<le> crossover \<longrightarrow> ?t = np_clip ?m lower upper)"
    if rows: "\<forall>x\<in>set population. length x = ?d" and up: "length upper = ?d"
  proof -
    have len: "length (population ! k) = ?d" if "k < n" for k
      using rows that assms(4) by simp
    have lm: "length ?m = ?d"
      by (simp add: vadd_def vscale_def vsub_def len p(2,3,4))
    have lc: "length (np_clip ?m lower upper) = ?d" by (simp add: np_clip_length lm up)
    have 1: "?t ! i = (if rand_draw R g1 i < crossover
                     then min (max (population ! a ! i
                                     + (population ! b ! i - population ! c ! i) * mutation)
                                (lower ! i)) (upper ! i)
                     else population ! j ! i)" if i: "i < ?d" for i
    proof -
      have "?m ! i = population ! a ! i + (population ! b ! i - population ! c ! i) * mutation"
        using i by (simp add: vadd_def vscale_def vsub_def len p(2,3,4))
      then have "np_clip ?m lower upper ! i
          = min (max (population ! a ! i + (population ! b ! i - population ! c ! i) * mutation)
                  (lower ! i)) (upper ! i)"
        using i by (simp add: np_clip_nth lm up)
      then show ?thesis
        using i by (simp add: np_where_nth lc len assms(3))
    qed
    have 2: "?t = population ! j" if none: "\<forall>i<?d. \<not> rand_draw R g1 i < crossover"
      using none by (intro np_where_all_false) (auto simp: lc len assms(3))
    have 3: "?t = population ! j" if "rand_ok R" "crossover \<le> 0"
    proof (rule 2, intro allI impI)
      fix i assume "i < ?d"
      have "0 \<le> rand_draw R g1 i" using rand_draw_between[OF that(1)] by blast
      then show "\<not> rand_draw R g1 i < crossover" using that(2) by simp
    qed
    have 4: "?t = np_clip ?m lower upper" if "rand_ok R" "1 \<le> crossover"
    proof (rule np_where_all_true)
      show "length ?c = length (np_clip ?m lower upper)" by (simp add: lc)
      show "length (population ! j) = length (np_clip ?m lower upper)"
        by (simp add: lc len assms(3))
      show "\<forall>p\<in>set ?c. p"
      proof
        fix q assume "q \<in> set ?c"
        then obtain i where "q = (rand_draw R g1 i < crossover)" by auto
        moreover have "rand_draw R g1 i < 1" using rand_draw_between[OF that(1)] by blast
        ultimately show q using that(2) by simp
      qed
    qed
    show ?thesis using 1 2 3 4 by blast
  qed
  have cs: "distinct (remove1 j [0..<n])" "set (remove1 j [0..<n]) = {i. i < n \<and> i \<noteq> j}"
    by auto
  show ?thesis
    using cs ch p tr rng shaped by blast
qed

theorem de_trial_mutation_crossover_witness:
  "choice_ok counter_sampler \<and> (4::nat) \<le> 4 \<and> (0::nat) < 4
   \<and> length [[0, 0], [1 / 2, 1], [3, 2], [2, 3 :: real]] = 4
   \<and> (\<exists>a b c g1. np_choice counter_sampler (remove1 0 [0..<4]) 3 False None (gen world0)
                     = ([a, b, c], g1) \<and>
         distinct [a, b, c] \<and> a \<noteq> 0 \<and> b \<noteq> 0 \<and> c \<noteq> 0 \<and>
         fst (de_trial counter_sampler [0, 0] [4, 4] 4 (1 / 2) (2 / 5) 0
                [[0, 0], [1 / 2, 1], [3, 2], [2, 3]] world0)
           = Inr (np_where (map (\<lambda>i. rand_draw counter_sampler g1 i < 2 / 5) [0..<length [0, 0 :: real]])
                    (np_clip (vadd ([[0, 0], [1 / 2, 1], [3, 2], [2, 3]] ! a)
                                (vscale (vsub ([[0, 0], [1 / 2, 1], [3, 2], [2, 3]] ! b)
                                              ([[0, 0], [1 / 2, 1], [3, 2], [2, 3]] ! c)) (1 / 2)))
                       [0, 0] [4, 4])
                    ([[0, 0], [1 / 2, 1], [3, 2], [2, 3]] ! 0)))
   \<and> np_choice counter_sampler (remove1 0 [0..<4]) 3 False None (gen world0) = ([1, 2, 3], 1)
   \<and> rand_draw counter_sampler 1 0 = 1 / 4 \<and> rand_draw counter_sampler 1 1 = 1 / 2
   \<and> de_trial counter_sampler [0, 0] [4, 4] 4 (1 / 2) (2 / 5) 0
        [[0, 0], [1 / 2, 1], [3, 2], [2, 3]] world0
        = (Inr [1, 0], \<lparr>gen = 3, evals = 0\<rparr>)"
proof -
  let ?P = "[[0, 0], [1 / 2, 1], [3, 2], [2, 3 :: real]]"
  have c2: "(4::nat) \<le> 4" and c3: "(0::nat) < 4" and c4: "length ?P = 4" by simp_all
  have e: "de_trial counter_sampler [0, 0] [4, 4] 4 (1 / 2) (2 / 5) 0 ?P world0
        = (Inr [1, 0], \<lparr>gen = 3, evals = 0\<rparr>)"
    by (simp add: run_simps de_simps)
  have ch: "np_choice counter_sampler (remove1 0 [0..<4]) 3 False None (gen world0) = ([1, 2, 3], 1)"
    by (simp add: run_simps)
  have d0: "rand_draw counter_sampler 1 0 = 1 / 4"
    by (simp add: rand_draw_def rand_state_def counter_sampler_def)
  have d1: "rand_draw counter_sampler 1 1 = 1 / 2"
    by (simp add: rand_draw_def rand_state_def counter_sampler_def)
  have x: "\<exists>a b c g1. np_choice counter_sampler (remove1 0 [0..<4]) 3 False None (gen world0)
                     = ([a, b, c], g1) \<and>
         distinct [a, b, c] \<and> a \<noteq> 0 \<and> b \<noteq> 0 \<and> c \<noteq> 0 \<and>
         fst (de_trial counter_sampler [0, 0] [4, 4] 4 (1 / 2) (2 / 5) 0 ?P world0)
           = Inr (np_where (map (\<lambda>i. rand_draw counter_sampler g1 i < 2 / 5) [0..<length [0, 0 :: real]])
                    (np_clip (vadd (?P ! a) (vscale (vsub (?P ! b) (?P ! c)) (1 / 2)))
                       [0, 0] [4, 4])
                    (?P ! 0))"
  proof -
    obtain a b c g1 t where
      "np_choice counter_sampler (remove1 0 [0..<4]) 3 False None (gen world0) = ([a, b, c], g1)"
      "distinct [a, b, c]" "a \<noteq> 0" "b \<noteq> 0" "c \<noteq> 0"
      "de_trial counter_sampler [0, 0] [4, 4] 4 (1 / 2) (2 / 5) 0 ?P world0
         = (Inr t, world0\<lparr>gen := rand_state counter_sampler (length [0, 0 :: real]) g1\<rparr>)"
      "t = np_where (map (\<lambda>i. rand_draw counter_sampler g1 i < 2 / 5) [0..<length [0, 0 :: real]])
                    (np_clip (vadd (?P ! a) (vscale (vsub (?P ! b) (?P ! c)) (1 / 2)))
                       [0, 0] [4, 4])
                    (?P ! 0)"
      using de_trial_mutation_crossover[OF counter_sampler_choice_ok c2 c3 c4,
          where lower = "[0, 0]" and upper = "[4, 4]" and w = world0 and mutation = "1 / 2"
            and crossover = "2 / 5"]
      by blast
    then show ?thesis
      by (intro exI[of _ a] exI[of _ b] exI[of _ c] exI[of _ g1]) simp
  qed
  show ?thesis
    by (rule conjI, rule counter_sampler_choice_ok, rule conjI, rule c2, rule conjI, rule c3,
        rule conjI, rule c4, rule conjI, rule x, rule conjI, rule ch, rule conjI, rule d0,
        rule conjI, rule d1, rule e)
qed




text \<open>
  C9: the objective value of the individual stored at an index never increases. One
  update changes the slot of its target only, and only to a trial vector of strictly
  smaller objective value; so over any stretch of targets, and over any number of full
  passes, the value at each index is at most what it was.
\<close>

theorem de_slot_never_increases:
  assumes "k < length population"
  shows "(de_update R f lower upper n mutation crossover j population w = (Inr p1, w1) \<longrightarrow>
            f (p1 ! k) \<le> f (population ! k) \<and>
            (p1 ! k \<noteq> population ! k \<longrightarrow>
               k = j \<and> f (p1 ! k) < f (population ! k) \<and>
               fst (de_trial R lower upper n mutation crossover j population w) = Inr (p1 ! k)))
       \<and> (de_pass R f lower upper n mutation crossover js population w = (Inr p2, w2) \<longrightarrow>
            f (p2 ! k) \<le> f (population ! k))
       \<and> (de_steps R f lower upper n mutation crossover m population w = (Inr p3, w3) \<longrightarrow>
            f (p3 ! k) \<le> f (population ! k))"
proof -
  have a: "f (p1 ! k) \<le> f (population ! k) \<and>
        (p1 ! k \<noteq> population ! k \<longrightarrow>
           k = j \<and> f (p1 ! k) < f (population ! k) \<and>
           fst (de_trial R lower upper n mutation crossover j population w) = Inr (p1 ! k))"
    if u: "de_update R f lower upper n mutation crossover j population w = (Inr p1, w1)"
    using de_update_slot(1)[OF u assms] de_update_changed[OF u assms] by blast
  have b: "f (p2 ! k) \<le> f (population ! k)"
    if u: "de_pass R f lower upper n mutation crossover js population w = (Inr p2, w2)"
    using de_pass_slot[OF u assms] .
  have c: "f (p3 ! k) \<le> f (population ! k)"
    if u: "de_steps R f lower upper n mutation crossover m population w = (Inr p3, w3)"
    using de_steps_slot[OF u assms] .
  show ?thesis using a b c by simp
qed

theorem de_slot_never_increases_witness:
  "(0::nat) < length [[0], [1 / 2], [3], [2 :: real]]
   \<and> de_update counter_sampler some_function [0] [4] 4 (1 / 2) (7 / 10) 0
        [[0], [1 / 2], [3], [2]] world0 = (Inr [[1], [1 / 2], [3], [2]], \<lparr>gen = 2, evals = 2\<rparr>)
   \<and> some_function ([[1], [1 / 2], [3], [2]] ! 0) < some_function ([[0], [1 / 2], [3], [2]] ! 0)
   \<and> de_steps counter_sampler some_function [0] [4] 4 (1 / 2) (7 / 10) 2
        [[0], [1 / 2], [3], [2]] world0 = (Inr [[1], [1 / 2], [1 / 4], [2]], \<lparr>gen = 16, evals = 16\<rparr>)
   \<and> some_function ([[1], [1 / 2], [1 / 4], [2]] ! 0) \<le> some_function ([[0], [1 / 2], [3], [2]] ! 0)"
proof -
  have k: "(0::nat) < length [[0], [1 / 2], [3], [2 :: real]]" by simp
  have u: "de_update counter_sampler some_function [0] [4] 4 (1 / 2) (7 / 10) 0
        [[0], [1 / 2], [3], [2]] world0 = (Inr [[1], [1 / 2], [3], [2]], \<lparr>gen = 2, evals = 2\<rparr>)"
    by (simp add: run_simps de_simps)
  have s: "de_steps counter_sampler some_function [0] [4] 4 (1 / 2) (7 / 10) 2
        [[0], [1 / 2], [3], [2]] world0 = (Inr [[1], [1 / 2], [1 / 4], [2]], \<lparr>gen = 16, evals = 16\<rparr>)"
    by (simp add: run_simps de_simps)
  have ne: "[[1], [1 / 2], [3], [2]] ! 0 \<noteq> [[0], [1 / 2], [3], [2 :: real]] ! 0" by simp
  note t = de_slot_never_increases[OF k, of counter_sampler some_function "[0]" "[4]" 4 "1 / 2"
      "7 / 10" 0 world0 "[[1], [1 / 2], [3], [2]]" "\<lparr>gen = 2, evals = 2\<rparr>" "[]" "[]" world0
      2 "[[1], [1 / 2], [1 / 4], [2]]" "\<lparr>gen = 16, evals = 16\<rparr>"]
  have t1: "some_function ([[1], [1 / 2], [3], [2]] ! 0) < some_function ([[0], [1 / 2], [3], [2]] ! 0)"
    using t[THEN conjunct1, THEN mp, OF u, THEN conjunct2, THEN mp, OF ne] by (rule conjunct2[THEN conjunct1])
  have t3: "some_function ([[1], [1 / 2], [1 / 4], [2]] ! 0) \<le> some_function ([[0], [1 / 2], [3], [2]] ! 0)"
    using t[THEN conjunct2, THEN conjunct2, THEN mp, OF s] .
  show ?thesis using k u s t1 t3 by (intro conjI)
qed

text \<open>
  C4: the minimum objective value over the population, read at the end of each pass, is
  non-increasing: after \<open>k + m\<close> passes it is at most what it was after \<open>k\<close> passes.
  \<open>minimize_de\<close> runs \<open>de_steps\<close> on its initial population.
\<close>

theorem de_population_minimum_monotone:
  assumes "de_steps R f lower upper n mutation crossover k population w = (Inr p1, w1)"
    and "de_steps R f lower upper n mutation crossover (k + m) population w = (Inr p2, w2)"
    and "population \<noteq> []"
  shows "Min (f ` set p2) \<le> Min (f ` set p1)"
proof -
  have r: "de_steps R f lower upper n mutation crossover m p1 w1 = (Inr p2, w2)"
    using assms(1,2) by (simp add: de_steps_add)
  have l1: "length p1 = length population" using de_steps_length[OF assms(1)] .
  have l2: "length p2 = length p1" using de_steps_length[OF r] .
  have ne: "p1 \<noteq> []" using l1 assms(3) by auto
  show ?thesis
    using Min_image_mono[OF l2 ne] de_steps_slot[OF r] by blast
qed

theorem de_population_minimum_monotone_witness:
  "de_steps counter_sampler some_function [0] [4] 4 (1 / 2) (7 / 10) 1
        [[0], [1 / 2], [3], [2]] world0 = (Inr [[1], [1 / 2], [1 / 4], [2]], \<lparr>gen = 8, evals = 8\<rparr>)
   \<and> de_steps counter_sampler some_function [0] [4] 4 (1 / 2) (7 / 10) (1 + 1)
        [[0], [1 / 2], [3], [2]] world0 = (Inr [[1], [1 / 2], [1 / 4], [2]], \<lparr>gen = 16, evals = 16\<rparr>)
   \<and> [[0], [1 / 2], [3], [2 :: real]] \<noteq> []
   \<and> Min (some_function ` set [[1], [1 / 2], [1 / 4], [2]])
        \<le> Min (some_function ` set [[1], [1 / 2], [1 / 4], [2]])"
proof -
  have a: "de_steps counter_sampler some_function [0] [4] 4 (1 / 2) (7 / 10) 1
        [[0], [1 / 2], [3], [2]] world0 = (Inr [[1], [1 / 2], [1 / 4], [2]], \<lparr>gen = 8, evals = 8\<rparr>)"
    by (simp add: run_simps de_simps)
  have b: "de_steps counter_sampler some_function [0] [4] 4 (1 / 2) (7 / 10) (1 + 1)
        [[0], [1 / 2], [3], [2]] world0 = (Inr [[1], [1 / 2], [1 / 4], [2]], \<lparr>gen = 16, evals = 16\<rparr>)"
    by (simp add: run_simps de_simps)
  have c: "[[0], [1 / 2], [3], [2 :: real]] \<noteq> []" by simp
  show ?thesis using de_population_minimum_monotone[OF a b c] a b c by (intro conjI)
qed

section \<open>Claims about particle swarm optimization\<close>



text \<open>
  C10: a particle's update changes no personal best but its own, and that one only to
  the particle's new position when its objective value is strictly smaller; right after
  the update the personal best is no worse than the position; over any number of passes
  the objective value of each personal best does not increase.
\<close>

theorem pso_personal_best_monotone:
  assumes "swarm_ok n s" "i < n" "k < n"
  shows "(pso_update R f lower upper \<omega> \<phi>1 \<phi>2 i s w = (s1, w1) \<longrightarrow>
            f (X_best s1 ! k) \<le> f (X_best s ! k) \<and>
            (X_best s1 ! k \<noteq> X_best s ! k \<longrightarrow>
               k = i \<and> X_best s1 ! k = X s1 ! i \<and> f (X_best s1 ! k) < f (X_best s ! k)) \<and>
            f (X_best s1 ! i) \<le> f (X s1 ! i))
       \<and> (pso_steps R f lower upper n \<omega> \<phi>1 \<phi>2 m s w = (s2, w2) \<longrightarrow>
            f (X_best s2 ! k) \<le> f (X_best s ! k))"
proof -
  have a: "f (X_best s1 ! k) \<le> f (X_best s ! k) \<and>
            (X_best s1 ! k \<noteq> X_best s ! k \<longrightarrow>
               k = i \<and> X_best s1 ! k = X s1 ! i \<and> f (X_best s1 ! k) < f (X_best s ! k)) \<and>
            f (X_best s1 ! i) \<le> f (X s1 ! i)"
    if u: "pso_update R f lower upper \<omega> \<phi>1 \<phi>2 i s w = (s1, w1)"
    using pso_update_best_slot[OF u assms] by blast
  have b: "f (X_best s2 ! k) \<le> f (X_best s ! k)"
    if u: "pso_steps R f lower upper n \<omega> \<phi>1 \<phi>2 m s w = (s2, w2)"
    using pso_steps_best_slot[OF u assms(1,3)] .
  show ?thesis using a b by simp
qed

theorem pso_personal_best_monotone_witness:
  "swarm_ok 4 \<lparr>X = [[0], [1], [2], [3]], V = [[- 4], [- 2], [0], [2]],
               X_best = [[0], [1], [2], [3]], x_swarm = In_X 1\<rparr>
   \<and> pso_update counter_sampler some_function [0] [4] (1 / 2) (1 / 5) (1 / 5) 2
        \<lparr>X = [[0], [1], [2], [3]], V = [[- 4], [- 2], [0], [2]],
         X_best = [[0], [1], [2], [3]], x_swarm = In_X 1\<rparr> world0 =
       (\<lparr>X = [[0], [1], [39 / 20], [3]], V = [[- 4], [- 2], [- (1 / 20)], [2]],
         X_best = [[0], [1], [39 / 20], [3]], x_swarm = In_X 1\<rparr>, \<lparr>gen = 2, evals = 4\<rparr>)
   \<and> some_function [39 / 20] < some_function [2]"
proof -
  let ?s = "\<lparr>X = [[0], [1], [2], [3]], V = [[- 4], [- 2], [0], [2]],
             X_best = [[0], [1], [2], [3 :: real]], x_swarm = In_X 1\<rparr>"
  let ?s1 = "\<lparr>X = [[0], [1], [39 / 20], [3]], V = [[- 4], [- 2], [- (1 / 20)], [2]],
         X_best = [[0], [1], [39 / 20], [3 :: real]], x_swarm = In_X 1\<rparr>"
  have ok: "swarm_ok 4 ?s" by (simp add: swarm_ok_def)
  have u: "pso_update counter_sampler some_function [0] [4] (1 / 2) (1 / 5) (1 / 5) 2 ?s world0
             = (?s1, \<lparr>gen = 2, evals = 4\<rparr>)"
    by (simp add: run_simps pso_simps)
  have ne: "X_best ?s1 ! 2 \<noteq> X_best ?s ! 2" by simp
  have i: "(2::nat) < 4" by simp
  have "some_function (X_best ?s1 ! 2) < some_function (X_best ?s ! 2)"
    using pso_personal_best_monotone[OF ok i i, of counter_sampler some_function "[0]" "[4]"
        "1 / 2" "1 / 5" "1 / 5" world0 ?s1 "\<lparr>gen = 2, evals = 4\<rparr>" 0 ?s world0,
        THEN conjunct1, THEN mp, OF u, THEN conjunct2, THEN conjunct1, THEN mp, OF ne]
    by simp
  then have "some_function [39 / 20] < some_function [2]" by simp
  then show ?thesis using ok u by (intro conjI)
qed

text \<open>
  C2: the objective value of the swarm's best-known position, read at the end of each
  pass over the swarm, is non-increasing: after \<open>k + m\<close> passes it is at most what it was
  after \<open>k\<close> passes. The passes start from the initial swarm of \<open>minimize_pso\<close>, whose
  result is the best-known position after the last pass.
\<close>

theorem pso_swarm_best_monotone:
  assumes "pso_init R F lower upper n w = (Inr (s0, ub), w0)"
  shows "f (swarm_best (fst (pso_steps R f (reals lower) ub (nat n) \<omega> \<phi>1 \<phi>2 (k + m) s0 w0)))
           \<le> f (swarm_best (fst (pso_steps R f (reals lower) ub (nat n) \<omega> \<phi>1 \<phi>2 k s0 w0)))
       \<and> fst (minimize_pso R f F (lower, upper) steps n \<omega> \<phi>1 \<phi>2 w) =
           Inr (swarm_best
                  (fst (pso_steps R f (reals lower) ub (nat n) \<omega> \<phi>1 \<phi>2 (nat steps) s0 w0)))"
proof -
  obtain s1 w1 where a: "pso_steps R f (reals lower) ub (nat n) \<omega> \<phi>1 \<phi>2 k s0 w0 = (s1, w1)"
    by (cases "pso_steps R f (reals lower) ub (nat n) \<omega> \<phi>1 \<phi>2 k s0 w0")
  obtain s2 w2 where b: "pso_steps R f (reals lower) ub (nat n) \<omega> \<phi>1 \<phi>2 m s1 w1 = (s2, w2)"
    by (cases "pso_steps R f (reals lower) ub (nat n) \<omega> \<phi>1 \<phi>2 m s1 w1")
  have c: "pso_steps R f (reals lower) ub (nat n) \<omega> \<phi>1 \<phi>2 (k + m) s0 w0 = (s2, w2)"
    using a b by (simp add: pso_steps_add)
  have i1: "swarm_ok (nat n) s1 \<and> bests_ok f s1"
    using pso_steps_invariants[OF a pso_init_swarm(1,2)[OF assms]] by simp
  have "f (swarm_best s2) \<le> f (swarm_best s1)"
    using pso_steps_invariants[OF b] i1 by simp
  then show ?thesis using a c minimize_pso_run[OF assms] by simp
qed

theorem pso_swarm_best_monotone_witness:
  "pso_init counter_sampler some_function_rows (NdArray [Num 0]) (NdArray [Num 4]) 4 world0 =
     (Inr (\<lparr>X = [[0], [1], [2], [3]], V = [[- 4], [- 2], [0], [2]],
            X_best = [[0], [1], [2], [3]], x_swarm = In_X 1\<rparr>, [4]), \<lparr>gen = 8, evals = 1\<rparr>)
   \<and> some_function (swarm_best (fst (pso_steps counter_sampler some_function
         (reals (NdArray [Num 0])) [4] (nat 4) (1 / 2) (1 / 5) (1 / 5) (1 + 1)
         \<lparr>X = [[0], [1], [2], [3]], V = [[- 4], [- 2], [0], [2]],
          X_best = [[0], [1], [2], [3]], x_swarm = In_X 1\<rparr> \<lparr>gen = 8, evals = 1\<rparr>)))
     \<le> some_function (swarm_best (fst (pso_steps counter_sampler some_function
         (reals (NdArray [Num 0])) [4] (nat 4) (1 / 2) (1 / 5) (1 / 5) 1
         \<lparr>X = [[0], [1], [2], [3]], V = [[- 4], [- 2], [0], [2]],
          X_best = [[0], [1], [2], [3]], x_swarm = In_X 1\<rparr> \<lparr>gen = 8, evals = 1\<rparr>)))"
proof -
  have i: "pso_init counter_sampler some_function_rows (NdArray [Num 0]) (NdArray [Num 4]) 4 world0 =
     (Inr (\<lparr>X = [[0], [1], [2], [3]], V = [[- 4], [- 2], [0], [2]],
            X_best = [[0], [1], [2], [3]], x_swarm = In_X 1\<rparr>, [4]), \<lparr>gen = 8, evals = 1\<rparr>)"
    by (simp add: run_simps pso_simps)
  show ?thesis
    using i pso_swarm_best_monotone[OF i, of some_function "1 / 2" "1 / 5" "1 / 5" 1 1 0,
        THEN conjunct1]
    by (intro conjI)
qed

section \<open>Claims about both optimizers\<close>




text \<open>
  C3: on a search domain of real bounds, as many upper as lower, each pair ordered, and a
  sampler whose uniform samples lie between their bounds, every position stays in the
  box. For differential evolution: every row of the population after any number \<open>q\<close> of
  individual updates of the run, every trial vector built from such a population, and
  the returned vector. For particle swarm optimization: every position, every personal
  best and the swarm's best-known position after any number \<open>q\<close> of particle updates of
  the run, and the returned vector.
\<close>

theorem positions_stay_in_bounds:
  assumes "uniform_ok R" "search_domain lower upper"
  shows "(np_random_uniform R (items lower) (items upper) n (length (items lower)) w
            = (Inr population0, w0) \<and>
          de_pass R f (reals lower) (reals upper) (nat n) mutation crossover
            (take q (concat (replicate (nat steps) [0..<nat n]))) population0 w0
            = (Inr population, w1) \<longrightarrow>
            (\<forall>x\<in>set population. in_box (reals lower) (reals upper) x) \<and>
            (\<forall>j t w2. j < nat n \<and>
               de_trial R (reals lower) (reals upper) (nat n) mutation crossover j population w1
                 = (Inr t, w2)
               \<longrightarrow> in_box (reals lower) (reals upper) t))
       \<and> (minimize_de R f F (lower, upper) steps n mutation crossover w = (Inr x, w3)
            \<longrightarrow> in_box (reals lower) (reals upper) x)
       \<and> (pso_init R F lower upper n w = (Inr (s0, ub), w4) \<and>
          pso_pass R f (reals lower) (reals upper) \<omega> \<phi>1 \<phi>2
            (take q (concat (replicate (nat steps) [0..<nat n]))) s0 w4 = (s, w5) \<longrightarrow>
            (\<forall>x\<in>set (X s). in_box (reals lower) (reals upper) x) \<and>
            (\<forall>x\<in>set (X_best s). in_box (reals lower) (reals upper) x) \<and>
            in_box (reals lower) (reals upper) (swarm_best s))
       \<and> (minimize_pso R f F (lower, upper) steps n \<omega> \<phi>1 \<phi>2 w = (Inr y, w6)
            \<longrightarrow> in_box (reals lower) (reals upper) y)"
proof -
  let ?js = "take q (concat (replicate (nat steps) [0..<nat n]))"
  let ?lo = "reals lower" and ?hi = "reals upper"
  have dom: "domain_ok ?lo ?hi" using assms(2) by (simp add: search_domain_def)
  have a: "(\<forall>x\<in>set population. in_box ?lo ?hi x) \<and>
            (\<forall>j t w2. j < nat n \<and>
               de_trial R ?lo ?hi (nat n) mutation crossover j population w1 = (Inr t, w2)
               \<longrightarrow> in_box ?lo ?hi t)"
    if i: "np_random_uniform R (items lower) (items upper) n (length (items lower)) w
             = (Inr population0, w0)"
      and p: "de_pass R f ?lo ?hi (nat n) mutation crossover ?js population0 w0
                = (Inr population, w1)"
  proof -
    have b0: "\<forall>x\<in>set population0. in_box ?lo ?hi x" and l0: "length population0 = nat n"
      using initial_population_in_box[OF assms i] by simp_all
    have js: "\<forall>j\<in>set ?js. j < length population0"
      using run_prefix_targets[of q "nat steps" "nat n"] l0 by simp
    have b: "\<forall>x\<in>set population. in_box ?lo ?hi x"
      using de_pass_in_box[OF dom b0 js p] .
    have l: "length population = nat n" using de_pass_length[OF p] l0 by simp
    have "in_box ?lo ?hi t"
      if "j < nat n" "de_trial R ?lo ?hi (nat n) mutation crossover j population w1 = (Inr t, w2)"
      for j t w2
      using de_trial_in_box[OF dom b _ that(2)] that(1) l by simp
    then show ?thesis using b by blast
  qed
  have b: "in_box ?lo ?hi x"
    if "minimize_de R f F (lower, upper) steps n mutation crossover w = (Inr x, w3)"
    using minimize_de_in_box[OF assms that] .
  have c: "(\<forall>x\<in>set (X s). in_box ?lo ?hi x) \<and>
            (\<forall>x\<in>set (X_best s). in_box ?lo ?hi x) \<and>
            in_box ?lo ?hi (swarm_best s)"
    if i: "pso_init R F lower upper n w = (Inr (s0, ub), w4)"
      and p: "pso_pass R f ?lo ?hi \<omega> \<phi>1 \<phi>2 ?js s0 w4 = (s, w5)"
  proof -
    have "swarm_ok (nat n) s \<and> swarm_in_box ?lo ?hi s"
      using pso_prefix_in_box[OF assms i p run_prefix_targets] .
    then show ?thesis
      using swarm_best_in_box[of "nat n" s ?lo ?hi] by (simp add: swarm_in_box_def)
  qed
  have d: "in_box ?lo ?hi y"
    if "minimize_pso R f F (lower, upper) steps n \<omega> \<phi>1 \<phi>2 w = (Inr y, w6)"
    using minimize_pso_in_box[OF assms that] .
  show ?thesis using a b c d by blast
qed

theorem positions_stay_in_bounds_witness:
  "uniform_ok counter_sampler \<and> search_domain (NdArray [Num 0]) (NdArray [Num 4])
   \<and> np_random_uniform counter_sampler (items (NdArray [Num 0])) (items (NdArray [Num 4])) 4
        (length (items (NdArray [Num 0]))) world0
        = (Inr [[0], [1], [2], [3]], \<lparr>gen = 4, evals = 0\<rparr>)
   \<and> de_pass counter_sampler some_function (reals (NdArray [Num 0])) (reals (NdArray [Num 4]))
        (nat 4) (1 / 2) (7 / 10)
        (take 5 (concat (replicate (nat 2) [0..<nat 4]))) [[0], [1], [2], [3]] \<lparr>gen = 4, evals = 0\<rparr>
        = (Inr [[1 / 2], [1], [2], [3]], \<lparr>gen = 14, evals = 10\<rparr>)
   \<and> list_all (in_box (reals (NdArray [Num 0])) (reals (NdArray [Num 4])))
        [[1 / 2], [1], [2], [3]]
   \<and> minimize_de counter_sampler some_function some_function_rows
        (NdArray [Num 0], NdArray [Num 4]) 2 4 (1 / 2) (7 / 10) world0
        = (Inr [1], \<lparr>gen = 20, evals = 17\<rparr>)
   \<and> minimize_pso counter_sampler some_function some_function_rows
        (NdArray [Num 0], NdArray [Num 4]) 2 4 (1 / 2) (1 / 5) (1 / 5) world0
        = (Inr [1], \<lparr>gen = 24, evals = 33\<rparr>)
   \<and> in_box (reals (NdArray [Num 0])) (reals (NdArray [Num 4])) [1]"
proof -
  have dom: "search_domain (NdArray [Num 0]) (NdArray [Num 4])"
    by (simp add: search_domain_def finite_seq_def reals_def domain_ok_def)
  have i: "np_random_uniform counter_sampler (items (NdArray [Num 0])) (items (NdArray [Num 4])) 4
        (length (items (NdArray [Num 0]))) world0
        = (Inr [[0], [1], [2], [3]], \<lparr>gen = 4, evals = 0\<rparr>)"
    by (simp add: run_simps)
  have p: "de_pass counter_sampler some_function (reals (NdArray [Num 0])) (reals (NdArray [Num 4]))
        (nat 4) (1 / 2) (7 / 10)
        (take 5 (concat (replicate (nat 2) [0..<nat 4]))) [[0], [1], [2], [3]] \<lparr>gen = 4, evals = 0\<rparr>
        = (Inr [[1 / 2], [1], [2], [3]], \<lparr>gen = 14, evals = 10\<rparr>)"
    by (simp add: run_simps de_simps)
  have d: "minimize_de counter_sampler some_function some_function_rows
        (NdArray [Num 0], NdArray [Num 4]) 2 4 (1 / 2) (7 / 10) world0
        = (Inr [1], \<lparr>gen = 20, evals = 17\<rparr>)"
    by (simp add: run_simps de_simps)
  have s: "minimize_pso counter_sampler some_function some_function_rows
        (NdArray [Num 0], NdArray [Num 4]) 2 4 (1 / 2) (1 / 5) (1 / 5) world0
        = (Inr [1], \<lparr>gen = 24, evals = 33\<rparr>)"
    by (simp add: run_simps pso_simps)
  note t = positions_stay_in_bounds[OF counter_sampler_uniform_ok dom,
      where f = some_function and F = some_function_rows
        and n = 4 and w = world0 and steps = 2 and q = 5
        and mutation = "1 / 2" and crossover = "7 / 10"
        and ?population0.0 = "[[0], [1], [2], [3]]" and ?w0.0 = "\<lparr>gen = 4, evals = 0\<rparr>"
        and population = "[[1 / 2], [1], [2], [3]]" and ?w1.0 = "\<lparr>gen = 14, evals = 10\<rparr>"
        and x = "[1]" and ?w3.0 = "\<lparr>gen = 20, evals = 17\<rparr>"]
  have "\<forall>x\<in>set [[1 / 2], [1], [2], [3]].
          in_box (reals (NdArray [Num 0])) (reals (NdArray [Num 4])) x"
    using t[THEN conjunct1, THEN mp, OF conjI[OF i p], THEN conjunct1] .
  then have a: "list_all (in_box (reals (NdArray [Num 0])) (reals (NdArray [Num 4])))
                  [[1 / 2], [1], [2], [3]]"
    unfolding list_all_iff .
  have b: "in_box (reals (NdArray [Num 0])) (reals (NdArray [Num 4])) [1]"
    using t[THEN conjunct2, THEN conjunct1, THEN mp, OF d] .
  show ?thesis
    by (rule conjI, rule counter_sampler_uniform_ok, rule conjI, rule dom, rule conjI, rule i,
        rule conjI, rule p, rule conjI, rule a, rule conjI, rule d, rule conjI, rule s, rule b)
qed




end
